theory Spec2Isabelle
  imports Complex_Main "HOL-Library.AList"
begin

section \<open>Values shared by the components\<close>

text \<open>
  A raised Python exception is represented by its text \<open>str(e)\<close>, the only thing the
  service ever reads from it. A call that may raise returns \<open>exn + 'a\<close>, with
  \<open>Inl\<close> for the raise. Readings of \<open>time.time()\<close> are only stored, never computed
  with.
\<close>

type_synonym exn = string

type_synonym timestamp = rat

datatype json =
    JNull
  | JBool bool
  | JNum rat
  | JStr string
  | JList "json list"
  | JObj "(string \<times> json) list"

text \<open>A Python dict with string keys, in insertion order.\<close>

type_synonym pydict = "(string \<times> json) list"

definition has_key :: "string \<Rightarrow> pydict \<Rightarrow> bool" where
  "has_key k d = (map_of d k \<noteq> None)"

definition dict_get :: "pydict \<Rightarrow> string \<Rightarrow> json \<Rightarrow> json" where
  "dict_get d k dflt = (case map_of d k of None \<Rightarrow> dflt | Some v \<Rightarrow> v)"

text \<open>Python truth value of a JSON value, as tested by \<open>if x:\<close>.\<close>

fun truthy :: "json \<Rightarrow> bool" where
  "truthy JNull = False"
| "truthy (JBool b) = b"
| "truthy (JNum n) = (n \<noteq> 0)"
| "truthy (JStr s) = (s \<noteq> [])"
| "truthy (JList xs) = (xs \<noteq> [])"
| "truthy (JObj d) = (d \<noteq> [])"

definition key_error :: "string \<Rightarrow> exn" where
  "key_error k = [CHR 0x27] @ k @ [CHR 0x27]"

subsection \<open>String helpers of the standard library\<close>

fun str_nat :: "nat \<Rightarrow> string" where
  "str_nat n =
     (if n < 10 then [''0123456789'' ! n]
      else str_nat (n div 10) @ [''0123456789'' ! (n mod 10)])"

declare str_nat.simps [simp del]

definition str_int :: "int \<Rightarrow> string" where
  "str_int i = (if i < 0 then CHR ''-'' # str_nat (nat (- i)) else str_nat (nat i))"

text \<open>\<open>os.path.basename\<close>: what follows the last slash.\<close>

definition basename :: "string \<Rightarrow> string" where
  "basename p = rev (takeWhile (\<lambda>c. c \<noteq> CHR ''/'') (rev p))"

text \<open>\<open>s.strip('/')\<close>: leading and trailing slashes removed.\<close>

definition strip_slashes :: "string \<Rightarrow> string" where
  "strip_slashes s =
     rev (dropWhile (\<lambda>c. c = CHR ''/'') (rev (dropWhile (\<lambda>c. c = CHR ''/'') s)))"


text \<open>\<open>os.path.join(a, b)\<close> on POSIX.\<close>

definition path_join :: "string \<Rightarrow> string \<Rightarrow> string" where
  "path_join a b =
     (if b \<noteq> [] \<and> hd b = CHR ''/'' then b
      else if a = [] \<or> last a = CHR ''/'' then a @ b
      else a @ ''/'' @ b)"

text \<open>Removal of one leading slash, as \<open>if s.startswith('/'): s = s[1:]\<close>.\<close>

definition drop_leading_slash :: "string \<Rightarrow> string" where
  "drop_leading_slash s = (case s of [] \<Rightarrow> [] | c # r \<Rightarrow> if c = CHR ''/'' then r else s)"

section \<open>The upload client (scripts/onedrive\_uploader.py)\<close>

record response =
  status_code :: int
  resp_text :: string
  json_body :: "pydict option"

text \<open>
  The headers of one chunk PUT: \<open>Content-Length\<close> and the three numbers of
  \<open>Content-Range: bytes start-end/total\<close>. The body is \<open>f.read(chunk_size)\<close> at
  offset \<open>start\<close>.
\<close>

record put_request =
  content_length :: int
  range_start :: int
  range_end :: int
  range_total :: int

text \<open>
  What the uploader calls outside itself: its configuration, the authentication state,
  the local file system and the HTTP endpoint. \<open>json_body = None\<close> stands for a body
  on which \<open>response.json()\<close> raises.
\<close>

record cloud =
  upload_folder_cfg :: string
  is_authenticated :: bool
  authenticate :: bool
  create_folder :: "string \<Rightarrow> exn + pydict"
  getsize :: "string \<Rightarrow> exn + int"
  isdir :: "string \<Rightarrow> bool"
  walk :: "string \<Rightarrow> (string \<times> string list) list"
  relpath :: "string \<Rightarrow> string \<Rightarrow> string"
  http_post :: "string \<Rightarrow> exn + response"
  http_put_file :: "string \<Rightarrow> string \<Rightarrow> exn + response"
  http_put_chunk :: "string \<Rightarrow> put_request \<Rightarrow> exn + response"

definition error_dict :: "string \<Rightarrow> pydict" where
  "error_dict msg = [(''error'', JStr msg)]"

definition response_json :: "response \<Rightarrow> exn + pydict" where
  "response_json r = (case json_body r of None \<Rightarrow> Inl ''Expecting value'' | Some d \<Rightarrow> Inr d)"

definition simple_upload :: "cloud \<Rightarrow> string \<Rightarrow> string \<Rightarrow> exn + pydict" where
  "simple_upload c file_path destination_folder =
     (let file_name = basename file_path;
          destination_folder = drop_leading_slash destination_folder;
          url = ''https://graph.microsoft.com/v1.0/me/drive/root:/'' @ destination_folder
                  @ ''/'' @ file_name @ '':/content''
      in case http_put_file c url file_path of
           Inl e \<Rightarrow> Inl e
         | Inr response \<Rightarrow>
             if status_code response \<in> {200, 201} then response_json response
             else Inr (error_dict (''Failed to upload file '' @ file_name @ '': ''
                         @ str_int (status_code response) @ '' - '' @ resp_text response)))"

definition chunk_size :: int where
  "chunk_size = 10 * 1024 * 1024"

definition chunk_request :: "int \<Rightarrow> nat \<Rightarrow> put_request" where
  "chunk_request file_size chunk_num =
     (let start = int chunk_num * chunk_size;
          end_byte = min file_size (start + chunk_size) - 1
      in \<lparr>content_length = end_byte - start + 1, range_start = start,
          range_end = end_byte, range_total = file_size\<rparr>)"

text \<open>
  The loop over \<open>range(total_chunks)\<close>. The first component is the list of PUTs issued,
  in order; the second is what the routine returns (the value after the loop when no
  iteration returned).
\<close>

fun chunk_loop ::
  "(put_request \<Rightarrow> exn + response) \<Rightarrow> string \<Rightarrow> int \<Rightarrow> nat list
     \<Rightarrow> put_request list \<times> (exn + pydict)" where
  "chunk_loop put file_name file_size [] =
     ([], Inr (error_dict ''Upload completed but no confirmation received''))"
| "chunk_loop put file_name file_size (chunk_num # rest) =
     (let req = chunk_request file_size chunk_num
      in case put req of
           Inl e \<Rightarrow> ([req], Inl e)
         | Inr response \<Rightarrow>
             if status_code response \<in> {200, 201, 202} then
               if status_code response \<in> {200, 201} then ([req], response_json response)
               else (case chunk_loop put file_name file_size rest of
                       (sent, result) \<Rightarrow> (req # sent, result))
             else ([req], Inr (error_dict (''Failed chunk upload for file '' @ file_name
                     @ '': '' @ str_int (status_code response) @ '' - '' @ resp_text response))))"

definition total_chunks :: "int \<Rightarrow> int" where
  "total_chunks file_size = (file_size + chunk_size - 1) div chunk_size"

definition upload_session_url :: "string \<Rightarrow> string \<Rightarrow> string" where
  "upload_session_url file_name destination_folder =
     ''https://graph.microsoft.com/v1.0/me/drive/root:/'' @ strip_slashes destination_folder
       @ ''/'' @ file_name @ '':/createUploadSession''"

text \<open>
  \<open>requests.put(upload_url, ...)\<close> for the value found under \<open>uploadUrl\<close>: a value
  that is not a string is refused by \<open>requests\<close> when the first chunk is sent.
\<close>

definition put_chunk :: "cloud \<Rightarrow> json \<Rightarrow> put_request \<Rightarrow> exn + response" where
  "put_chunk c upload_url req =
     (case upload_url of JStr u \<Rightarrow> http_put_chunk c u req | _ \<Rightarrow> Inl ''Invalid URL'')"

definition chunked_upload ::
  "cloud \<Rightarrow> string \<Rightarrow> string \<Rightarrow> put_request list \<times> (exn + pydict)" where
  "chunked_upload c file_path destination_folder =
     (let file_name = basename file_path
      in case getsize c file_path of
           Inl e \<Rightarrow> ([], Inl e)
         | Inr file_size \<Rightarrow>
            (let url = upload_session_url file_name destination_folder
             in case http_post c url of
                  Inl e \<Rightarrow> ([], Inl e)
                | Inr response \<Rightarrow>
                    if status_code response \<noteq> 200 then
                      ([], Inr (error_dict (''Failed to create upload session: ''
                             @ str_int (status_code response) @ '' - '' @ resp_text response)))
                    else
                      (case response_json response of
                         Inl e \<Rightarrow> ([], Inl e)
                       | Inr d \<Rightarrow>
                          (case map_of d ''uploadUrl'' of
                             Some upload_url \<Rightarrow>
                               chunk_loop (put_chunk c upload_url) file_name file_size
                                 [0..<nat (total_chunks file_size)]
                           | None \<Rightarrow> ([], Inl (key_error ''uploadUrl''))))))"

text \<open>\<open>destination_folder or self.upload_folder\<close>\<close>

definition folder_or_default :: "cloud \<Rightarrow> string option \<Rightarrow> string" where
  "folder_or_default c destination_folder =
     (case destination_folder of
        None \<Rightarrow> upload_folder_cfg c
      | Some d \<Rightarrow> if d = [] then upload_folder_cfg c else d)"

definition upload_file :: "cloud \<Rightarrow> string \<Rightarrow> string option \<Rightarrow> exn + pydict" where
  "upload_file c file_path destination_folder =
     (if \<not> is_authenticated c \<and> \<not> authenticate c then Inr (error_dict ''Authentication failed'')
      else
        (let destination_folder = folder_or_default c destination_folder
         in case create_folder c destination_folder of
              Inl e \<Rightarrow> Inl e
            | Inr folder_info \<Rightarrow>
                if has_key ''error'' folder_info then Inr folder_info
                else
                  (case getsize c file_path of
                     Inl e \<Rightarrow> Inl e
                   | Inr file_size \<Rightarrow>
                       if file_size \<le> 4 * 1024 * 1024 then
                         simple_upload c file_path destination_folder
                       else snd (chunked_upload c file_path destination_folder))))"






text \<open>The test \<open>'error' not in upload_result\<close> of the reconciler (main.py, line 175).\<close>

definition upload_reported_ok :: "pydict \<Rightarrow> bool" where
  "upload_reported_ok upload_result = (\<not> has_key ''error'' upload_result)"

section \<open>The download client adapters\<close>

text \<open>
  The adapter over Transmission (scripts/bt\_downloader\_transmission.py), the one the
  service imports. A torrent is what \<open>session.get_torrent(id)\<close> returns; the adapter's
  \<open>get_download_path\<close> reads its name and its file list. \<open>tr_has_metadata\<close> records
  whether Transmission has obtained the torrent's metadata; no line of the adapter reads it.
\<close>

record tr_torrent =
  tr_name :: string
  tr_files :: "string list"
  tr_has_metadata :: bool

record transmission_downloader =
  tr_download_dir :: string
  tr_handles :: "(string \<times> int) list"
  tr_get_torrent :: "int \<Rightarrow> exn + tr_torrent"

definition get_download_path_transmission ::
  "transmission_downloader \<Rightarrow> string \<Rightarrow> exn + string option" where
  "get_download_path_transmission d info_hash =
     (case map_of (tr_handles d) info_hash of
        None \<Rightarrow> Inr None
      | Some torrent_id \<Rightarrow>
         (case tr_get_torrent d torrent_id of
            Inl e \<Rightarrow> Inl e
          | Inr torrent \<Rightarrow>
              if length (tr_files torrent) = 1
              then Inr (Some (path_join (tr_download_dir d) (tr_name torrent)))
              else Inr (Some (path_join (tr_download_dir d) (tr_name torrent)))))"

text \<open>
  The adapter over libtorrent (scripts/bt\_downloader.py). A handle answers
  \<open>has_metadata()\<close>, \<open>name()\<close> and the number of files of its torrent info. The status
  snapshot that \<open>get_download_path\<close> computes before its test is not used by it.
\<close>

record lt_handle =
  lt_has_metadata :: bool
  lt_name :: string
  lt_num_files :: nat

record libtorrent_downloader =
  lt_download_dir :: string
  lt_handles :: "(string \<times> lt_handle) list"

definition get_download_path_libtorrent ::
  "libtorrent_downloader \<Rightarrow> string \<Rightarrow> string option" where
  "get_download_path_libtorrent d info_hash =
     (case map_of (lt_handles d) info_hash of
        None \<Rightarrow> None
      | Some handle \<Rightarrow>
          if \<not> lt_has_metadata handle then None
          else if lt_num_files handle = 1
          then Some (path_join (lt_download_dir d) (lt_name handle))
          else Some (path_join (lt_download_dir d) (lt_name handle)))"

section \<open>The task store and the reconciler (main.py)\<close>

text \<open>
  A task is a dict with the keys below, each present or absent. \<open>source = None\<close>
  stands for a task without a \<open>source\<close> key, which only a hand-edited tasks file holds.
\<close>

record task =
  source :: "string option"
  added_time :: "timestamp option"
  start_time :: "timestamp option"
  status :: "pydict option"
  upload_result :: "pydict option"
  complete_time :: "timestamp option"
  error :: "string option"

text \<open>
  \<open>self.tasks\<close>: three lists and the \<open>downloading\<close> dict keyed by info hash, in
  insertion order (a tasks file without one of the four keys is not represented).
  \<open>saved\<close> is the sequence of task sets handed to \<open>json.dump\<close> by \<open>_save_tasks\<close>,
  oldest first, whether or not the write succeeds; \<open>ticks\<close> counts the calls of
  \<open>time.time()\<close>; \<open>upload_log\<close> holds, per upload made by the reconciler, the path
  and whether the reconciler logged it as successful.
\<close>

type_synonym task_set = "task list \<times> (string \<times> task) list \<times> task list \<times> task list"

record service =
  pending :: "task list"
  downloading :: "(string \<times> task) list"
  completed :: "task list"
  failed :: "task list"
  saved :: "task_set list"
  ticks :: nat
  upload_log :: "(string \<times> bool) list"

text \<open>
  What the service calls outside itself: the clock (the n-th call of \<open>time.time()\<close>),
  the three operations of \<open>self.downloader\<close> that the reconciler uses, and the uploader.
\<close>

record world =
  clock :: "nat \<Rightarrow> timestamp"
  add_torrent :: "string \<Rightarrow> exn + string"
  get_torrent_status :: "string \<Rightarrow> exn + pydict"
  get_download_path :: "string \<Rightarrow> exn + string option"
  uploader :: cloud

text \<open>The task set of \<open>_load_tasks\<close> when there is no readable tasks file.\<close>

definition empty_service :: service where
  "empty_service =
     \<lparr>pending = [], downloading = [], completed = [], failed = [], saved = [], ticks = 0,
      upload_log = []\<rparr>"

definition task_set_of :: "service \<Rightarrow> task_set" where
  "task_set_of s = (pending s, downloading s, completed s, failed s)"

definition save_tasks :: "service \<Rightarrow> service" where
  "save_tasks s = s\<lparr>saved := saved s @ [task_set_of s]\<rparr>"

text \<open>The duplicate check of \<open>add_task\<close>, over the four buckets in its order.\<close>

definition task_exists :: "service \<Rightarrow> string \<Rightarrow> bool" where
  "task_exists s torrent_path_or_magnet =
     ((\<exists>t \<in> set (pending s). source t = Some torrent_path_or_magnet)
      \<or> (\<exists>kt \<in> set (downloading s). source (snd kt) = Some torrent_path_or_magnet)
      \<or> (\<exists>t \<in> set (completed s). source t = Some torrent_path_or_magnet)
      \<or> (\<exists>t \<in> set (failed s). source t = Some torrent_path_or_magnet))"

definition new_task :: "string \<Rightarrow> timestamp \<Rightarrow> task" where
  "new_task src now =
     \<lparr>source = Some src, added_time = Some now, start_time = None, status = None,
      upload_result = None, complete_time = None, error = None\<rparr>"

definition add_task :: "world \<Rightarrow> string \<Rightarrow> service \<Rightarrow> service \<times> bool" where
  "add_task w torrent_path_or_magnet s =
     (if task_exists s torrent_path_or_magnet then (s, False)
      else
        (save_tasks
           (s\<lparr>pending := pending s @ [new_task torrent_path_or_magnet (clock w (ticks s))],
              ticks := ticks s + 1\<rparr>),
         True))"

text \<open>
  \<open>task['error'] = str(e)\<close> changes the dict object that is also an element of
  \<open>self.tasks['pending']\<close>. The loop takes its tasks from a shallow copy of that list and
  every iteration that goes on removes its own task, so the task at hand is the first
  element of the list, hence the first one equal to it: the update replaces that element.
\<close>

fun replace1 :: "'a \<Rightarrow> 'a \<Rightarrow> 'a list \<Rightarrow> 'a list" where
  "replace1 x y [] = []"
| "replace1 x y (z # zs) = (if z = x then y # zs else z # replace1 x y zs)"

text \<open>
  One iteration of the loop of \<open>process_pending_tasks\<close>. The second component is an
  exception that leaves the loop: without a \<open>source\<close> key, \<open>task['source']\<close> raises in
  the \<open>try\<close> block and again in the log line of the handler. \<open>list.remove\<close> takes out the
  first element equal to the task.
\<close>

definition dispatch_task :: "world \<Rightarrow> task \<Rightarrow> service \<Rightarrow> service \<times> exn option" where
  "dispatch_task w task s =
     (case source task of
        None \<Rightarrow> (s, Some (key_error ''source''))
      | Some src \<Rightarrow>
         (case add_torrent w src of
            Inr info_hash \<Rightarrow>
              (let entry =
                     \<lparr>source = Some src,
                      added_time = Some (case added_time task of
                                           None \<Rightarrow> clock w (ticks s + 1) | Some a \<Rightarrow> a),
                      start_time = Some (clock w (ticks s)), status = None,
                      upload_result = None, complete_time = None, error = None\<rparr>
               in (save_tasks
                     (s\<lparr>downloading := AList.update info_hash entry (downloading s),
                        pending := remove1 task (pending s),
                        ticks := ticks s + 2\<rparr>),
                   None))
          | Inl e \<Rightarrow>
              (let task' = task\<lparr>error := Some e\<rparr>
               in (save_tasks
                     (s\<lparr>failed := failed s @ [task'],
                        pending := remove1 task' (replace1 task task' (pending s))\<rparr>),
                   None))))"

fun pending_loop :: "world \<Rightarrow> task list \<Rightarrow> service \<Rightarrow> service \<times> exn option" where
  "pending_loop w [] s = (s, None)"
| "pending_loop w (task # rest) s =
     (case dispatch_task w task s of
        (s', Some e) \<Rightarrow> (s', Some e)
      | (s', None) \<Rightarrow> pending_loop w rest s')"

definition process_pending_tasks :: "world \<Rightarrow> service \<Rightarrow> service \<times> exn option" where
  "process_pending_tasks w s =
     (if pending s = [] then (s, None) else pending_loop w (pending s) s)"

text \<open>\<open>if download_path:\<close> holds for a path that is neither \<open>None\<close> nor empty.\<close>

definition path_given :: "string option \<Rightarrow> bool" where
  "path_given download_path = (case download_path of None \<Rightarrow> False | Some p \<Rightarrow> p \<noteq> [])"

text \<open>The move to the completed bucket that ends a finished download.\<close>

definition complete_task :: "world \<Rightarrow> string \<Rightarrow> task \<Rightarrow> service \<Rightarrow> service" where
  "complete_task w info_hash task s =
     save_tasks
       (s\<lparr>completed := completed s @ [task\<lparr>complete_time := Some (clock w (ticks s))\<rparr>],
          downloading := AList.delete info_hash (downloading s),
          ticks := ticks s + 1\<rparr>)"

text \<open>
  The upload made by the reconciler (main.py, lines 168 to 171). For a directory it calls
  \<open>self.uploader.upload_folder(download_path)\<close>: the attribute found on the instance is
  the string set in \<open>__init__\<close>, and calling a string raises \<open>TypeError\<close>.
\<close>

definition str_not_callable :: exn where
  "str_not_callable = [CHR 0x27] @ ''str'' @ [CHR 0x27] @ '' object is not callable''"

definition upload_path :: "cloud \<Rightarrow> string \<Rightarrow> exn + pydict" where
  "upload_path c download_path =
     (if isdir c download_path then Inl str_not_callable
      else upload_file c download_path None)"

text \<open>
  One iteration of the loop of \<open>check_downloads\<close>. Every exception raised inside the
  \<open>try\<close> block is caught and logged, and the iteration ends with what was done so far.
\<close>

definition check_task :: "world \<Rightarrow> string \<Rightarrow> task \<Rightarrow> service \<Rightarrow> service" where
  "check_task w info_hash task s =
     (case get_torrent_status w info_hash of
        Inl e \<Rightarrow> s
      | Inr st \<Rightarrow>
         (let task = task\<lparr>status := Some st\<rparr>;
              s = save_tasks (s\<lparr>downloading := AList.update info_hash task (downloading s)\<rparr>)
          in if truthy (dict_get st ''is_finished'' (JBool False)) then
               (case get_download_path w info_hash of
                  Inl e \<Rightarrow> s
                | Inr download_path \<Rightarrow>
                    if path_given download_path then
                      (case upload_path (uploader w) (the download_path) of
                         Inl e \<Rightarrow> s
                       | Inr result \<Rightarrow>
                           complete_task w info_hash (task\<lparr>upload_result := Some result\<rparr>)
                             (s\<lparr>upload_log := upload_log s
                                  @ [(the download_path, upload_reported_ok result)]\<rparr>))
                    else complete_task w info_hash task s)
             else s))"

fun downloads_loop :: "world \<Rightarrow> (string \<times> task) list \<Rightarrow> service \<Rightarrow> service" where
  "downloads_loop w [] s = s"
| "downloads_loop w ((info_hash, task) # rest) s =
     downloads_loop w rest (check_task w info_hash task s)"

definition check_downloads :: "world \<Rightarrow> service \<Rightarrow> service" where
  "check_downloads w s =
     (if downloading s = [] then s else downloads_loop w (downloading s) s)"

subsection \<open>Buckets, by source\<close>

definition in_pending :: "service \<Rightarrow> string \<Rightarrow> bool" where
  "in_pending s x = (Some x \<in> source ` set (pending s))"

definition in_downloading :: "service \<Rightarrow> string \<Rightarrow> bool" where
  "in_downloading s x = (Some x \<in> (source \<circ> snd) ` set (downloading s))"

definition in_completed :: "service \<Rightarrow> string \<Rightarrow> bool" where
  "in_completed s x = (Some x \<in> source ` set (completed s))"

definition in_failed :: "service \<Rightarrow> string \<Rightarrow> bool" where
  "in_failed s x = (Some x \<in> source ` set (failed s))"

text \<open>The \<open>source\<close> entries of all stored tasks, bucket after bucket.\<close>

definition all_sources :: "service \<Rightarrow> string option list" where
  "all_sources s =
     map source (pending s) @ map (source \<circ> snd) (downloading s)
       @ map source (completed s) @ map source (failed s)"

text \<open>
  The store invariant: every stored task has a source, no source is stored twice
  (neither in two buckets nor twice in one), and the keys of \<open>downloading\<close> are those of
  a dict.
\<close>

definition store_ok :: "service \<Rightarrow> bool" where
  "store_ok s =
     (distinct (all_sources s) \<and> None \<notin> set (all_sources s)
      \<and> distinct (map fst (downloading s)))"

text \<open>The operations of the task lifecycle.\<close>

datatype operation = AddTask string | ProcessPendingTasks | CheckDownloads

fun run_operation :: "world \<Rightarrow> operation \<Rightarrow> service \<Rightarrow> service" where
  "run_operation w (AddTask src) s = fst (add_task w src s)"
| "run_operation w ProcessPendingTasks s = fst (process_pending_tasks w s)"
| "run_operation w CheckDownloads s = check_downloads w s"

section \<open>Example environments\<close>

text \<open>
  A drive that accepts everything: folders exist, small files are stored with 201, an
  upload session is granted, every chunk but the last is answered 202 and the last 201.
  The file \<open>/downloads/big.bin\<close> has 25 MiB + 1 bytes; every other file 1 KiB.
\<close>

definition example_cloud :: cloud where
  "example_cloud =
     \<lparr>upload_folder_cfg = ''/BTDownloads'',
      is_authenticated = True,
      authenticate = True,
      create_folder = (\<lambda>p. Inr [(''id'', JStr ''F1'')]),
      getsize = (\<lambda>p. if p = ''/downloads/big.bin'' then Inr 26214401 else Inr 1024),
      isdir = (\<lambda>p. p = ''/downloads/album''),
      walk = (\<lambda>p. if p = ''/downloads/album'' then [(''/downloads/album'', [''a.flac''])] else []),
      relpath = (\<lambda>a b. ''.''),
      http_post = (\<lambda>url. Inr \<lparr>status_code = 200, resp_text = [],
                     json_body = Some [(''uploadUrl'', JStr ''https://up/1'')]\<rparr>),
      http_put_file = (\<lambda>url p. Inr \<lparr>status_code = 201, resp_text = [],
                     json_body = Some [(''id'', JStr ''I1'')]\<rparr>),
      http_put_chunk = (\<lambda>url r.
         if range_end r + 1 = range_total r
         then Inr \<lparr>status_code = 201, resp_text = [], json_body = Some [(''id'', JStr ''I2'')]\<rparr>
         else Inr \<lparr>status_code = 202, resp_text = [], json_body = Some []\<rparr>)\<rparr>"

text \<open>The same drive, except that it answers 202 to every chunk, the last included.\<close>

definition silent_cloud :: cloud where
  "silent_cloud =
     example_cloud\<lparr>http_put_chunk :=
       (\<lambda>url r. Inr \<lparr>status_code = 202, resp_text = [], json_body = Some []\<rparr>)\<rparr>"

text \<open>
  A download client that rejects \<open>bad.torrent\<close>, names every other transfer after its
  source, cannot be polled for the transfer \<open>hash-stalled\<close>, and reports every other
  transfer as finished; the artifact of \<open>hash-album.torrent\<close> is the directory
  \<open>/downloads/album\<close>, that of any other transfer the file \<open>/downloads/a.bin\<close>.
\<close>

definition example_world :: world where
  "example_world =
     \<lparr>clock = (\<lambda>n. 1000 + of_nat n),
      add_torrent = (\<lambda>src. if src = ''bad.torrent'' then Inl ''No such file or directory''
                            else Inr (''hash-'' @ src)),
      get_torrent_status = (\<lambda>h. if h = ''hash-stalled'' then Inl ''Connection refused''
                                   else Inr [(''name'', JStr h), (''is_finished'', JBool True)]),
      get_download_path = (\<lambda>h. if h = ''hash-album.torrent'' then Inr (Some ''/downloads/album'')
                                  else Inr (Some ''/downloads/a.bin'')),
      uploader = example_cloud\<rparr>"

text \<open>A drive with no room left: the PUT of a small file is answered 507.\<close>

definition full_cloud :: cloud where
  "full_cloud =
     example_cloud\<lparr>http_put_file :=
       (\<lambda>url p. Inr \<lparr>status_code = 507, resp_text = ''Insufficient Storage'',
                       json_body = None\<rparr>)\<rparr>"

definition full_world :: world where
  "full_world = example_world\<lparr>uploader := full_cloud\<rparr>"

text \<open>A drive that cannot be reached: the PUT of a small file raises.\<close>

definition offline_cloud :: cloud where
  "offline_cloud = example_cloud\<lparr>http_put_file := (\<lambda>url p. Inl ''Connection aborted'')\<rparr>"

definition offline_world :: world where
  "offline_world = example_world\<lparr>uploader := offline_cloud\<rparr>"

text \<open>
  A download client that holds one torrent, of info hash \<open>c0ffee\<close>, and answers every
  submission with it, as Transmission does when the torrent submitted is one it already
  has (the reply \<open>torrent-duplicate\<close> carries the existing torrent).
\<close>

definition duplicate_world :: world where
  "duplicate_world = example_world\<lparr>add_torrent := (\<lambda>src. Inr ''c0ffee'')\<rparr>"

text \<open>A sequence of operations, run from left to right.\<close>

definition run_operations :: "world \<Rightarrow> operation list \<Rightarrow> service \<Rightarrow> service" where
  "run_operations w ops s = fold (run_operation w) ops s"

definition example_failed_task :: task where
  "example_failed_task = (new_task ''bad.torrent'' 7)\<lparr>error := Some ''No such file or directory''\<rparr>"

text \<open>
  The two adapters holding one magnet transfer each, whose metadata has not arrived.
\<close>

definition example_transmission :: transmission_downloader where
  "example_transmission =
     \<lparr>tr_download_dir = ''./downloads'',
      tr_handles = [(''abc123'', 1)],
      tr_get_torrent = (\<lambda>i. Inr \<lparr>tr_name = ''abc123'', tr_files = [], tr_has_metadata = False\<rparr>)\<rparr>"

definition example_libtorrent :: libtorrent_downloader where
  "example_libtorrent =
     \<lparr>lt_download_dir = ''./downloads'',
      lt_handles = [(''abc123'', \<lparr>lt_has_metadata = False, lt_name = [], lt_num_files = 0\<rparr>),
                    (''def456'', \<lparr>lt_has_metadata = True, lt_name = ''album'', lt_num_files = 12\<rparr>)]\<rparr>"

text \<open>A task as \<open>process_pending_tasks\<close> stores it in \<open>downloading\<close>.\<close>

definition example_downloading_task :: task where
  "example_downloading_task =
     \<lparr>source = Some ''a.torrent'', added_time = Some 1000, start_time = Some 1001,
      status = None, upload_result = None, complete_time = None, error = None\<rparr>"

section \<open>Properties of the upload client\<close>

subsection \<open>Chunk arithmetic\<close>

lemma chunk_size_pos: "0 < chunk_size"
  by (simp add: chunk_size_def)

lemma ceil_div_pos:
  fixes F C :: int
  assumes "0 < C"
  shows "(F + C - 1) div C = - (- F div C)"
proof (cases "F mod C = 0")
  case True
  have "F + C - 1 = C * (F div C) + (C - 1)"
    using True mult_div_mod_eq[of C F] by simp
  then have "(F + C - 1) div C = F div C"
    using assms by (intro int_div_pos_eq[where r = "C - 1"]) auto
  moreover have "- F div C = - (F div C)"
    using True assms by (simp add: zdiv_zminus1_eq_if)
  ultimately show ?thesis by simp
next
  case False
  have r: "0 < F mod C" "F mod C < C"
  proof -
    have "0 \<le> F mod C" using assms by simp
    with False show "0 < F mod C" by linarith
    show "F mod C < C" using assms by simp
  qed
  have "F + C - 1 = C * (F div C + 1) + (F mod C - 1)"
    using mult_div_mod_eq[of C F] by (simp add: algebra_simps)
  then have "(F + C - 1) div C = F div C + 1"
    using r by (intro int_div_pos_eq[where r = "F mod C - 1"]) auto
  moreover have "- F div C = - (F div C) - 1"
    using False assms by (simp add: zdiv_zminus1_eq_if)
  ultimately show ?thesis by simp
qed

lemma total_chunks_ceiling:
  "total_chunks F = \<lceil>(of_int F :: rat) / of_int chunk_size\<rceil>"
  using ceil_div_pos[OF chunk_size_pos, of F]
  by (simp add: total_chunks_def ceiling_divide_eq_div)

lemma total_chunks_bounds:
  assumes "0 < F"
  shows "(total_chunks F - 1) * chunk_size < F" and "F \<le> total_chunks F * chunk_size"
    and "0 < total_chunks F"
proof -
  let ?a = "F + chunk_size - 1"
  have eq: "?a = chunk_size * total_chunks F + ?a mod chunk_size"
    unfolding total_chunks_def by simp
  have r: "0 \<le> ?a mod chunk_size" "?a mod chunk_size < chunk_size"
    using chunk_size_pos by simp_all
  show 1: "(total_chunks F - 1) * chunk_size < F"
    using eq r by (simp add: algebra_simps)
  show 2: "F \<le> total_chunks F * chunk_size"
    using eq r by (simp add: algebra_simps)
  show "0 < total_chunks F"
  proof (rule ccontr)
    assume "\<not> 0 < total_chunks F"
    then have "total_chunks F * chunk_size \<le> 0"
      using chunk_size_pos by (simp add: mult_le_0_iff)
    with 2 assms show False by simp
  qed
qed


lemma chunk_loop_all_accepted:
  "(\<And>k. k \<in> set ks \<Longrightarrow> \<exists>r. put (chunk_request F k) = Inr r \<and> status_code r = 202)
   \<Longrightarrow> chunk_loop put fn F ks
       = (map (chunk_request F) ks,
          Inr (error_dict ''Upload completed but no confirmation received''))"
proof (induction ks)
  case Nil
  show ?case by simp
next
  case (Cons k ks)
  from Cons.prems[of k] obtain r where r: "put (chunk_request F k) = Inr r" "status_code r = 202"
    by auto
  have "chunk_loop put fn F ks
       = (map (chunk_request F) ks,
          Inr (error_dict ''Upload completed but no confirmation received''))"
    using Cons.prems by (intro Cons.IH) auto
  with r show ?case by simp
qed

lemma chunk_loop_last_sent:
  "fst (chunk_loop put fn F [k]) = [chunk_request F k]"
  by (simp add: Let_def split: sum.splits)

lemma chunk_loop_sent:
  "(\<And>j. j \<in> set ks \<Longrightarrow> \<exists>r. put (chunk_request F j) = Inr r \<and> status_code r = 202)
   \<Longrightarrow> fst (chunk_loop put fn F (ks @ [k])) = map (chunk_request F) (ks @ [k])"
proof (induction ks)
  case Nil
  show ?case using chunk_loop_last_sent[of put fn F k] by simp
next
  case (Cons j ks)
  from Cons.prems[of j] obtain r where r: "put (chunk_request F j) = Inr r" "status_code r = 202"
    by auto
  have "fst (chunk_loop put fn F (ks @ [k])) = map (chunk_request F) (ks @ [k])"
    using Cons.prems by (intro Cons.IH) auto
  with r show ?case by (simp add: split_beta)
qed

lemma chunk_request_inner:
  assumes "0 < F" and "int k + 1 < total_chunks F"
  shows "chunk_request F k =
           \<lparr>content_length = chunk_size, range_start = int k * chunk_size,
            range_end = int k * chunk_size + chunk_size - 1, range_total = F\<rparr>"
proof -
  have "(int k + 1) * chunk_size \<le> (total_chunks F - 1) * chunk_size"
    using assms(2) chunk_size_pos by (intro mult_right_mono) auto
  with total_chunks_bounds(1)[OF assms(1)] have "int k * chunk_size + chunk_size < F"
    by (simp add: algebra_simps)
  then show ?thesis
    by (simp add: chunk_request_def Let_def min_def)
qed

lemma chunk_request_final:
  assumes "0 < F" and "int k + 1 = total_chunks F"
  shows "chunk_request F k =
           \<lparr>content_length = F - int k * chunk_size, range_start = int k * chunk_size,
            range_end = F - 1, range_total = F\<rparr>"
    and "int k * chunk_size < F"
proof -
  have "F \<le> (int k + 1) * chunk_size"
    using total_chunks_bounds(2)[OF assms(1)] assms(2) by simp
  then have "F \<le> int k * chunk_size + chunk_size"
    by (simp add: algebra_simps)
  then show "chunk_request F k =
           \<lparr>content_length = F - int k * chunk_size, range_start = int k * chunk_size,
            range_end = F - 1, range_total = F\<rparr>"
    by (simp add: chunk_request_def Let_def min_def)
  show "int k * chunk_size < F"
  proof -
    have "total_chunks F - 1 = int k" using assms(2) by simp
    with total_chunks_bounds(1)[OF assms(1)] show ?thesis by simp
  qed
qed

lemma put_chunk_str: "put_chunk c (JStr u) = http_put_chunk c u"
  by (rule ext) (simp add: put_chunk_def)

lemma chunked_upload_session:
  assumes "getsize c path = Inr F"
    and "http_post c (upload_session_url (basename path) dest) = Inr resp"
    and "status_code resp = 200"
    and "json_body resp = Some d"
    and "map_of d ''uploadUrl'' = Some (JStr u)"
  shows "chunked_upload c path dest =
           chunk_loop (http_put_chunk c u) (basename path) F [0..<nat (total_chunks F)]"
  using assms by (simp add: chunked_upload_def response_json_def put_chunk_str)

lemma chunk_request_start: "range_start (chunk_request F k) = int k * chunk_size"
  by (simp add: chunk_request_def Let_def)

lemma chunk_request_end:
  "range_end (chunk_request F k) = min F (int k * chunk_size + chunk_size) - 1"
  by (simp add: chunk_request_def Let_def)

lemma chunk_ranges_disjoint:
  assumes "k < j"
  shows "range_end (chunk_request F k) < range_start (chunk_request F j)"
proof -
  have "int k + 1 \<le> int j" using assms by simp
  then have "(int k + 1) * chunk_size \<le> int j * chunk_size"
    using chunk_size_pos by (intro mult_right_mono) simp_all
  then have "int k * chunk_size + chunk_size \<le> int j * chunk_size"
    by (simp add: algebra_simps)
  then show ?thesis
    unfolding chunk_request_start chunk_request_end by simp
qed

lemma chunk_ranges_cover:
  assumes "0 < F"
  shows "(\<Union>k<nat (total_chunks F). {range_start (chunk_request F k)..range_end (chunk_request F k)})
           = {0..F - 1}"
proof (intro equalityI subsetI)
  fix b
  assume "b \<in> (\<Union>k<nat (total_chunks F).
                 {range_start (chunk_request F k)..range_end (chunk_request F k)})"
  then obtain k where lo: "int k * chunk_size \<le> b"
    and hi: "b \<le> min F (int k * chunk_size + chunk_size) - 1"
    unfolding chunk_request_start chunk_request_end by auto
  have "0 \<le> int k * chunk_size" using chunk_size_pos by simp
  then have "0 \<le> b" using lo by (rule order_trans)
  moreover have "b \<le> F - 1" using hi by simp
  ultimately show "b \<in> {0..F - 1}" by simp
next
  fix b
  assume "b \<in> {0..F - 1}"
  then have b: "0 \<le> b" "b < F" by simp_all
  let ?k = "nat (b div chunk_size)"
  have q: "0 \<le> b div chunk_size"
    using b(1) chunk_size_pos by (simp add: pos_imp_zdiv_nonneg_iff)
  then have k: "int ?k = b div chunk_size" by simp
  define q r where "q = b div chunk_size" and "r = b mod chunk_size"
  have eq: "b = chunk_size * q + r" by (simp add: q_def r_def)
  have r: "0 \<le> r" "r < chunk_size"
    using chunk_size_pos by (simp_all add: r_def)
  have kq: "int ?k = q" using k by (simp add: q_def)
  have lo: "int ?k * chunk_size \<le> b"
    unfolding kq using eq r(1) by (simp add: algebra_simps)
  have hi: "b < int ?k * chunk_size + chunk_size"
    unfolding kq using eq r(2) by (simp add: algebra_simps)
  have "int ?k < total_chunks F"
  proof (rule ccontr)
    assume "\<not> int ?k < total_chunks F"
    then have "total_chunks F * chunk_size \<le> int ?k * chunk_size"
      using chunk_size_pos by (intro mult_right_mono) simp_all
    with total_chunks_bounds(2)[OF assms] lo b(2) show False by simp
  qed
  then have "?k < nat (total_chunks F)" by (simp only: zless_nat_eq_int_zless)
  moreover have "b \<in> {range_start (chunk_request F ?k)..range_end (chunk_request F ?k)}"
    unfolding chunk_request_start chunk_request_end using lo hi b(2) by simp
  ultimately show "b \<in> (\<Union>k<nat (total_chunks F).
                 {range_start (chunk_request F k)..range_end (chunk_request F k)})"
    by blast
qed

lemma chunked_upload_ranges_split:
  fixes F :: int
  defines "n \<equiv> nat \<lceil>(of_int F :: rat) / of_int chunk_size\<rceil>"
  assumes size: "0 < F" "getsize c path = Inr F"
    and session: "http_post c (upload_session_url (basename path) dest) = Inr resp"
      "status_code resp = 200" "json_body resp = Some d" "map_of d ''uploadUrl'' = Some (JStr u)"
    and accepted: "\<And>k. k + 1 < n \<Longrightarrow>
        \<exists>r. http_put_chunk c u (chunk_request F k) = Inr r \<and> status_code r = 202"
  shows "length (fst (chunked_upload c path dest)) = n"
    and "content_length (last (fst (chunked_upload c path dest))) = F - (int n - 1) * chunk_size"
    and "range_start (fst (chunked_upload c path dest) ! 0) = 0"
    and "range_end (last (fst (chunked_upload c path dest))) = F - 1"
    and "\<forall>i<n. range_start (fst (chunked_upload c path dest) ! i) = int i * chunk_size
           \<and> range_start (fst (chunked_upload c path dest) ! i)
               \<le> range_end (fst (chunked_upload c path dest) ! i)
           \<and> content_length (fst (chunked_upload c path dest) ! i)
               = range_end (fst (chunked_upload c path dest) ! i)
                 - range_start (fst (chunked_upload c path dest) ! i) + 1
           \<and> range_total (fst (chunked_upload c path dest) ! i) = F"
    and "\<forall>i. i + 1 < n \<longrightarrow>
           range_start (fst (chunked_upload c path dest) ! (i + 1))
             = range_end (fst (chunked_upload c path dest) ! i) + 1"
    and "fst (chunked_upload c path dest) = map (chunk_request F) [0..<nat (total_chunks F)]"
proof -
  let ?puts = "fst (chunked_upload c path dest)"
  have n_eq: "int n = total_chunks F" and n_pos: "0 < n"
    using total_chunks_bounds(3)[OF size(1)] by (simp_all add: n_def total_chunks_ceiling)
  then obtain m where m: "n = Suc m" by (cases n) auto
  have upt: "[0..<nat (total_chunks F)] = [0..<m] @ [m]"
    using n_eq m by (metis nat_int upt_Suc_append zero_le)
  have "\<And>j. j \<in> set [0..<m] \<Longrightarrow>
          \<exists>r. http_put_chunk c u (chunk_request F j) = Inr r \<and> status_code r = 202"
    using accepted m by simp
  then have "fst (chunk_loop (http_put_chunk c u) (basename path) F ([0..<m] @ [m]))
             = map (chunk_request F) ([0..<m] @ [m])"
    by (rule chunk_loop_sent)
  then have puts: "?puts = map (chunk_request F) [0..<n]"
    using chunked_upload_session[OF size(2) session] upt m by simp
  show "?puts = map (chunk_request F) [0..<nat (total_chunks F)]"
    using puts n_eq by (metis nat_int)
  have nth: "?puts ! i = chunk_request F i" if "i < n" for i
    using that puts by simp
  have last_eq: "last ?puts = chunk_request F m"
    using puts m by simp
  have fin: "int m + 1 = total_chunks F"
    using n_eq m by simp
  note final = chunk_request_final[OF size(1) fin]
  have inner: "chunk_request F i =
           \<lparr>content_length = chunk_size, range_start = int i * chunk_size,
            range_end = int i * chunk_size + chunk_size - 1, range_total = F\<rparr>"
    if "i < m" for i
    using that fin by (intro chunk_request_inner[OF size(1)]) simp
  show "length ?puts = n" using puts by simp
  show "content_length (last ?puts) = F - (int n - 1) * chunk_size"
    using last_eq final(1) m by simp
  show "range_start (?puts ! 0) = 0"
    using nth[OF n_pos] by (simp add: chunk_request_def Let_def)
  show "range_end (last ?puts) = F - 1"
    using last_eq final(1) by simp
  show "\<forall>i<n. range_start (?puts ! i) = int i * chunk_size
           \<and> range_start (?puts ! i) \<le> range_end (?puts ! i)
           \<and> content_length (?puts ! i) = range_end (?puts ! i) - range_start (?puts ! i) + 1
           \<and> range_total (?puts ! i) = F"
  proof (intro allI impI)
    fix i assume i: "i < n"
    show "range_start (?puts ! i) = int i * chunk_size
           \<and> range_start (?puts ! i) \<le> range_end (?puts ! i)
           \<and> content_length (?puts ! i) = range_end (?puts ! i) - range_start (?puts ! i) + 1
           \<and> range_total (?puts ! i) = F"
    proof (cases "i < m")
      case True
      then show ?thesis using nth[OF i] inner[OF True] chunk_size_pos by simp
    next
      case False
      with i m have "i = m" by simp
      then show ?thesis using nth[OF i] final by simp
    qed
  qed
  show "\<forall>i. i + 1 < n \<longrightarrow> range_start (?puts ! (i + 1)) = range_end (?puts ! i) + 1"
  proof (intro allI impI)
    fix i assume i: "i + 1 < n"
    then have im: "i < m" and i': "i < n" using m by simp_all
    have "range_start (?puts ! (i + 1)) = int (i + 1) * chunk_size"
      using nth[OF i] by (simp add: chunk_request_def Let_def)
    moreover have "range_end (?puts ! i) = int i * chunk_size + chunk_size - 1"
      using nth[OF i'] inner[OF im] by simp
    ultimately show "range_start (?puts ! (i + 1)) = range_end (?puts ! i) + 1"
      by (simp add: algebra_simps)
  qed
qed

text \<open>
  C3. Chunk math. For a file of size \<open>F > 0\<close> and the chunk size of 10 MiB, once the
  upload session is granted and the server answers 202 to every chunk but the last,
  the routine issues exactly \<open>ceil(F/C)\<close> PUTs; the last one carries
  \<open>F - (ceil(F/C) - 1) * C\<close> bytes; the \<open>Content-Range\<close> intervals start at byte 0,
  end at byte \<open>F - 1\<close>, are non-empty, each starts one byte after the previous one
  ends, an earlier one ends before a later one starts, and their union is exactly
  \<open>0 .. F - 1\<close>.
\<close>

theorem chunked_upload_ranges:
  fixes F :: int
  assumes "0 < F" and "getsize c path = Inr F"
    and "http_post c (upload_session_url (basename path) dest) = Inr resp"
    and "status_code resp = 200" and "json_body resp = Some d"
    and "map_of d ''uploadUrl'' = Some (JStr u)"
    and "\<And>k. k + 1 < nat \<lceil>(of_int F :: rat) / of_int chunk_size\<rceil> \<Longrightarrow>
        \<exists>r. http_put_chunk c u (chunk_request F k) = Inr r \<and> status_code r = 202"
  shows "length (fst (chunked_upload c path dest)) = nat \<lceil>(of_int F :: rat) / of_int chunk_size\<rceil>
    \<and> content_length (last (fst (chunked_upload c path dest)))
        = F - (\<lceil>(of_int F :: rat) / of_int chunk_size\<rceil> - 1) * chunk_size
    \<and> range_start (fst (chunked_upload c path dest) ! 0) = 0
    \<and> range_end (last (fst (chunked_upload c path dest))) = F - 1
    \<and> (\<forall>i < nat \<lceil>(of_int F :: rat) / of_int chunk_size\<rceil>.
          range_start (fst (chunked_upload c path dest) ! i) = int i * chunk_size
        \<and> range_start (fst (chunked_upload c path dest) ! i)
             \<le> range_end (fst (chunked_upload c path dest) ! i)
        \<and> content_length (fst (chunked_upload c path dest) ! i)
             = range_end (fst (chunked_upload c path dest) ! i)
               - range_start (fst (chunked_upload c path dest) ! i) + 1
        \<and> range_total (fst (chunked_upload c path dest) ! i) = F)
    \<and> (\<forall>i. i + 1 < nat \<lceil>(of_int F :: rat) / of_int chunk_size\<rceil> \<longrightarrow>
          range_start (fst (chunked_upload c path dest) ! (i + 1))
            = range_end (fst (chunked_upload c path dest) ! i) + 1)
    \<and> (\<forall>i j. i < j \<and> j < nat \<lceil>(of_int F :: rat) / of_int chunk_size\<rceil> \<longrightarrow>
          range_end (fst (chunked_upload c path dest) ! i)
            < range_start (fst (chunked_upload c path dest) ! j))
    \<and> (\<Union>i < nat \<lceil>(of_int F :: rat) / of_int chunk_size\<rceil>.
          {range_start (fst (chunked_upload c path dest) ! i)
             .. range_end (fst (chunked_upload c path dest) ! i)}) = {0 .. F - 1}"
proof -
  have pos: "0 < \<lceil>(of_int F :: rat) / of_int chunk_size\<rceil>"
    using total_chunks_bounds(3)[OF assms(1)] by (simp add: total_chunks_ceiling)
  note parts = chunked_upload_ranges_split[OF assms(1-6)]
  have 1: "length (fst (chunked_upload c path dest))
             = nat \<lceil>(of_int F :: rat) / of_int chunk_size\<rceil>"
    using assms(7) by (rule parts(1))
  have 2: "content_length (last (fst (chunked_upload c path dest)))
        = F - (\<lceil>(of_int F :: rat) / of_int chunk_size\<rceil> - 1) * chunk_size"
    using parts(2)[OF assms(7)] pos by simp
  have n: "nat \<lceil>(of_int F :: rat) / of_int chunk_size\<rceil> = nat (total_chunks F)"
    by (simp add: total_chunks_ceiling)
  note puts = parts(7)[OF assms(7)]
  have nth: "fst (chunked_upload c path dest) ! i = chunk_request F i"
    if "i < nat (total_chunks F)" for i
    using that puts by simp
  have 7: "\<forall>i j. i < j \<and> j < nat \<lceil>(of_int F :: rat) / of_int chunk_size\<rceil> \<longrightarrow>
          range_end (fst (chunked_upload c path dest) ! i)
            < range_start (fst (chunked_upload c path dest) ! j)"
  proof (intro allI impI)
    fix i j assume ij: "i < j \<and> j < nat \<lceil>(of_int F :: rat) / of_int chunk_size\<rceil>"
    then have "i < nat (total_chunks F)" "j < nat (total_chunks F)" unfolding n by simp_all
    then show "range_end (fst (chunked_upload c path dest) ! i)
            < range_start (fst (chunked_upload c path dest) ! j)"
      using ij chunk_ranges_disjoint[of i j F] by (simp add: nth)
  qed
  have 8: "(\<Union>i < nat \<lceil>(of_int F :: rat) / of_int chunk_size\<rceil>.
          {range_start (fst (chunked_upload c path dest) ! i)
             .. range_end (fst (chunked_upload c path dest) ! i)}) = {0 .. F - 1}"
    unfolding n using chunk_ranges_cover[OF assms(1)] by (simp add: nth)
  from 1 2 parts(3)[OF assms(7)] parts(4)[OF assms(7)] parts(5)[OF assms(7)]
    parts(6)[OF assms(7)] 7 8
  show ?thesis by (intro conjI)
qed

lemma example_total_chunks_code: "total_chunks 26214401 = 3"
  by (simp add: total_chunks_def chunk_size_def)

lemma example_total_chunks: "\<lceil>(26214401 :: rat) / of_int chunk_size\<rceil> = 3"
  using total_chunks_ceiling[of 26214401] example_total_chunks_code by simp

theorem chunked_upload_ranges_witness:
  "length (fst (chunked_upload example_cloud ''/downloads/big.bin'' ''/BTDownloads'')) = 3
   \<and> content_length (last (fst (chunked_upload example_cloud ''/downloads/big.bin'' ''/BTDownloads'')))
       = 5242881
   \<and> range_end (last (fst (chunked_upload example_cloud ''/downloads/big.bin'' ''/BTDownloads'')))
       = 26214400"
proof -
  let ?resp = "\<lparr>status_code = 200, resp_text = [],
                 json_body = Some [(''uploadUrl'', JStr ''https://up/1'')]\<rparr>"
  have size: "(0::int) < 26214401"
    "getsize example_cloud ''/downloads/big.bin'' = Inr 26214401"
    by (simp_all add: example_cloud_def)
  have session:
    "http_post example_cloud (upload_session_url (basename ''/downloads/big.bin'') ''/BTDownloads'')
       = Inr ?resp"
    "status_code ?resp = 200"
    "json_body ?resp = Some [(''uploadUrl'', JStr ''https://up/1'')]"
    "map_of [(''uploadUrl'', JStr ''https://up/1'')] ''uploadUrl'' = Some (JStr ''https://up/1'')"
    by (simp_all add: example_cloud_def)
  have accepted: "\<exists>r. http_put_chunk example_cloud ''https://up/1'' (chunk_request 26214401 k) = Inr r
                     \<and> status_code r = 202"
    if "k + 1 < nat \<lceil>(of_int 26214401 :: rat) / of_int chunk_size\<rceil>" for k
  proof -
    from that have "k = 0 \<or> k = 1" unfolding of_int_numeral example_total_chunks by auto
    then show ?thesis
      by (auto simp: example_cloud_def chunk_request_def chunk_size_def)
  qed
  from chunked_upload_ranges[OF size session accepted]
  show ?thesis
    unfolding of_int_numeral example_total_chunks by (simp add: chunk_size_def)
qed

text \<open>
  C8. If the upload session is granted and every chunk PUT of the loop is answered 202,
  the loop runs through all chunks and the routine returns the explicit error
  \<open>Upload completed but no confirmation received\<close>, which the caller's test reads as a failure;
  it never returns a success descriptor.
\<close>

theorem chunked_upload_no_confirmation:
  assumes "getsize c path = Inr F"
    and "http_post c (upload_session_url (basename path) dest) = Inr resp"
    and "status_code resp = 200" and "json_body resp = Some d"
    and "map_of d ''uploadUrl'' = Some (JStr u)"
    and "\<And>k. int k < total_chunks F \<Longrightarrow>
        \<exists>r. http_put_chunk c u (chunk_request F k) = Inr r \<and> status_code r = 202"
  shows "snd (chunked_upload c path dest)
           = Inr [(''error'', JStr ''Upload completed but no confirmation received'')]
       \<and> fst (chunked_upload c path dest) = map (chunk_request F) [0..<nat (total_chunks F)]
       \<and> \<not> upload_reported_ok [(''error'', JStr ''Upload completed but no confirmation received'')]"
proof -
  have "\<And>k. k \<in> set [0..<nat (total_chunks F)] \<Longrightarrow>
        \<exists>r. http_put_chunk c u (chunk_request F k) = Inr r \<and> status_code r = 202"
    using assms(6) by simp
  from chunk_loop_all_accepted[of "[0..<nat (total_chunks F)]" "http_put_chunk c u" F "basename path", OF this]
  show ?thesis
    using chunked_upload_session[OF assms(1-5)]
    by (simp add: error_dict_def upload_reported_ok_def has_key_def)
qed

theorem chunked_upload_no_confirmation_witness:
  "snd (chunked_upload silent_cloud ''/downloads/big.bin'' ''/BTDownloads'')
     = Inr [(''error'', JStr ''Upload completed but no confirmation received'')]
   \<and> length (fst (chunked_upload silent_cloud ''/downloads/big.bin'' ''/BTDownloads'')) = 3"
proof -
  let ?resp = "\<lparr>status_code = 200, resp_text = [],
                 json_body = Some [(''uploadUrl'', JStr ''https://up/1'')]\<rparr>"
  have tc: "total_chunks 26214401 = 3"
    by (simp add: total_chunks_def chunk_size_def)
  have size: "getsize silent_cloud ''/downloads/big.bin'' = Inr 26214401"
    by (simp add: silent_cloud_def example_cloud_def)
  have session:
    "http_post silent_cloud (upload_session_url (basename ''/downloads/big.bin'') ''/BTDownloads'')
       = Inr ?resp"
    "status_code ?resp = 200"
    "json_body ?resp = Some [(''uploadUrl'', JStr ''https://up/1'')]"
    "map_of [(''uploadUrl'', JStr ''https://up/1'')] ''uploadUrl'' = Some (JStr ''https://up/1'')"
    by (simp_all add: silent_cloud_def example_cloud_def)
  have accepted: "\<exists>r. http_put_chunk silent_cloud ''https://up/1'' (chunk_request 26214401 k) = Inr r
                     \<and> status_code r = 202"
    if "int k < total_chunks 26214401" for k
    by (simp add: silent_cloud_def)
  from chunked_upload_no_confirmation[OF size session accepted]
  show ?thesis
    by (simp add: tc)
qed

subsection \<open>Folder upload\<close>








section \<open>Properties of the download client adapters\<close>

text \<open>
  C5, as the claim states it, fails for the Transmission adapter: a transfer that is known
  to the adapter and whose metadata has not arrived gets a path, not \<open>None\<close>.
\<close>

theorem get_download_path_transmission_no_metadata:
  "map_of (tr_handles example_transmission) ''abc123'' = Some 1
   \<and> tr_get_torrent example_transmission 1
        = Inr \<lparr>tr_name = ''abc123'', tr_files = [], tr_has_metadata = False\<rparr>
   \<and> get_download_path_transmission example_transmission ''abc123''
        = Inr (Some ''./downloads/abc123'')"
  by (simp add: example_transmission_def get_download_path_transmission_def path_join_def)

text \<open>
  C5, amended. For a transfer id known to the adapter, the libtorrent adapter returns
  \<open>None\<close> while the metadata is not available and otherwise the download directory joined
  with the torrent's name, for one file as for several; the Transmission adapter makes no
  metadata test and returns the download directory joined with the torrent's name whenever
  the lookup of the torrent returns, for any number of files.
\<close>

theorem get_download_path_adapters:
  "(map_of (lt_handles ld) h = Some handle \<longrightarrow>
      get_download_path_libtorrent ld h
        = (if lt_has_metadata handle then Some (path_join (lt_download_dir ld) (lt_name handle))
           else None))
   \<and> (map_of (tr_handles td) h' = Some torrent_id \<and> tr_get_torrent td torrent_id = Inr torrent \<longrightarrow>
      get_download_path_transmission td h'
        = Inr (Some (path_join (tr_download_dir td) (tr_name torrent))))"
  by (simp add: get_download_path_libtorrent_def get_download_path_transmission_def)

theorem get_download_path_adapters_witness:
  "get_download_path_libtorrent example_libtorrent ''abc123'' = None
   \<and> get_download_path_libtorrent example_libtorrent ''def456'' = Some ''./downloads/album''
   \<and> get_download_path_transmission example_transmission ''abc123''
        = Inr (Some ''./downloads/abc123'')"
proof -
  have 1: "map_of (lt_handles example_libtorrent) ''abc123''
             = Some \<lparr>lt_has_metadata = False, lt_name = [], lt_num_files = 0\<rparr>"
    and 2: "map_of (lt_handles example_libtorrent) ''def456''
             = Some \<lparr>lt_has_metadata = True, lt_name = ''album'', lt_num_files = 12\<rparr>"
    and 3: "map_of (tr_handles example_transmission) ''abc123'' = Some 1
            \<and> tr_get_torrent example_transmission 1
                = Inr \<lparr>tr_name = ''abc123'', tr_files = [], tr_has_metadata = False\<rparr>"
    by (simp_all add: example_libtorrent_def example_transmission_def)
  from get_download_path_adapters[of example_libtorrent "''abc123''" _ example_transmission
        "''abc123''" 1 "\<lparr>tr_name = ''abc123'', tr_files = [], tr_has_metadata = False\<rparr>"]
    get_download_path_adapters[of example_libtorrent "''def456''" _ example_transmission
        "''abc123''" 1 "\<lparr>tr_name = ''abc123'', tr_files = [], tr_has_metadata = False\<rparr>"]
    1 2 3
  show ?thesis
    by (simp add: path_join_def example_libtorrent_def example_transmission_def)
qed

section \<open>Properties of the task store\<close>

subsection \<open>Submission\<close>

lemma Some_in_image: "Some x \<in> f ` A \<longleftrightarrow> (\<exists>t \<in> A. f t = Some x)"
  by force

lemma task_exists_iff:
  "task_exists s x \<longleftrightarrow> in_pending s x \<or> in_downloading s x \<or> in_completed s x \<or> in_failed s x"
  by (simp add: task_exists_def in_pending_def in_downloading_def in_completed_def
      in_failed_def Some_in_image)

lemma task_exists_all_sources: "task_exists s x \<longleftrightarrow> Some x \<in> set (all_sources s)"
  by (simp add: task_exists_def all_sources_def Some_in_image)

lemma add_task_duplicate: "task_exists s x \<Longrightarrow> add_task w x s = (s, False)"
  by (simp add: add_task_def)

lemma add_task_fresh:
  "\<not> task_exists s x \<Longrightarrow>
     add_task w x s =
       (save_tasks (s\<lparr>pending := pending s @ [new_task x (clock w (ticks s))],
                      ticks := ticks s + 1\<rparr>), True)"
  by (simp add: add_task_def)

lemma all_sources_add_task_fresh:
  "\<not> task_exists s x \<Longrightarrow>
     all_sources (fst (add_task w x s)) =
       map source (pending s) @ [Some x] @ map (source \<circ> snd) (downloading s)
         @ map source (completed s) @ map source (failed s)"
  by (simp add: add_task_fresh all_sources_def save_tasks_def new_task_def)

lemma task_exists_after_add: "task_exists (fst (add_task w x s)) x"
  by (cases "task_exists s x")
     (auto simp: add_task_def task_exists_def save_tasks_def new_task_def)

text \<open>
  C1. A source that occupies any of the four buckets is rejected by \<open>add_task\<close>; from a
  state without the source, two submissions in a row return \<open>True\<close> then \<open>False\<close> and
  leave exactly one task with that source in the store (in \<open>pending\<close>).
\<close>

theorem add_task_twice:
  "((in_pending s src \<or> in_downloading s src \<or> in_completed s src \<or> in_failed s src)
      \<longrightarrow> snd (add_task w src s) = False)
   \<and> (\<not> (in_pending s src \<or> in_downloading s src \<or> in_completed s src \<or> in_failed s src)
      \<longrightarrow> snd (add_task w src s) = True
        \<and> snd (add_task w src (fst (add_task w src s))) = False
        \<and> length (filter (\<lambda>x. x = Some src)
                    (all_sources (fst (add_task w src (fst (add_task w src s)))))) = 1
        \<and> length (filter (\<lambda>t. source t = Some src)
                    (pending (fst (add_task w src (fst (add_task w src s)))))) = 1)"
proof (cases "task_exists s src")
  case True
  then show ?thesis using task_exists_iff[of s src] by (simp add: add_task_duplicate)
next
  case False
  have second: "add_task w src (fst (add_task w src s)) = (fst (add_task w src s), False)"
    using task_exists_after_add by (rule add_task_duplicate)
  have absent: "Some src \<notin> set (all_sources s)"
    using False by (simp add: task_exists_all_sources)
  then have none: "filter (\<lambda>x. x = Some src) (all_sources s) = []"
    by (auto simp: filter_empty_conv)
  have "filter (\<lambda>x. x = Some src) (all_sources (fst (add_task w src s))) = [Some src]"
    using none unfolding all_sources_add_task_fresh[OF False] by (simp add: all_sources_def)
  moreover have "filter (\<lambda>t. source t = Some src) (pending s) = []"
    using False by (auto simp: task_exists_def filter_empty_conv)
  then have "filter (\<lambda>t. source t = Some src) (pending (fst (add_task w src s)))
               = [new_task src (clock w (ticks s))]"
    by (simp add: add_task_fresh[OF False] save_tasks_def new_task_def)
  ultimately show ?thesis
    using False task_exists_iff[of s src] second by (simp add: add_task_fresh)
qed

theorem add_task_twice_witness:
  "snd (add_task example_world ''bad.torrent'' (empty_service\<lparr>failed := [example_failed_task]\<rparr>)) = False
   \<and> snd (add_task example_world ''a.torrent'' empty_service) = True
   \<and> snd (add_task example_world ''a.torrent'' (fst (add_task example_world ''a.torrent'' empty_service)))
       = False
   \<and> pending (fst (add_task example_world ''a.torrent''
                 (fst (add_task example_world ''a.torrent'' empty_service))))
       = [new_task ''a.torrent'' 1000]"
proof -
  have 1: "in_failed (empty_service\<lparr>failed := [example_failed_task]\<rparr>) ''bad.torrent''"
    by (simp add: in_failed_def example_failed_task_def new_task_def)
  have 2: "\<not> (in_pending empty_service ''a.torrent'' \<or> in_downloading empty_service ''a.torrent''
              \<or> in_completed empty_service ''a.torrent'' \<or> in_failed empty_service ''a.torrent'')"
    by (simp add: in_pending_def in_downloading_def in_completed_def in_failed_def
        empty_service_def)
  have 3: "pending (fst (add_task example_world ''a.torrent''
                 (fst (add_task example_world ''a.torrent'' empty_service))))
       = [new_task ''a.torrent'' 1000]"
    by (simp add: add_task_def task_exists_def empty_service_def save_tasks_def new_task_def
        example_world_def)
  from add_task_twice[of "empty_service\<lparr>failed := [example_failed_task]\<rparr>" "''bad.torrent''" example_world]
    add_task_twice[of empty_service "''a.torrent''" example_world] 1 2 3
  show ?thesis by blast
qed

text \<open>
  C10. On the duplicate branch \<open>add_task\<close> returns \<open>False\<close> and the whole state after
  the call is the state before it: no bucket changes and nothing is added to the sequence
  of persistence writes.
\<close>

theorem add_task_duplicate_unchanged:
  assumes "in_pending s src \<or> in_downloading s src \<or> in_completed s src \<or> in_failed s src"
  shows "add_task w src s = (s, False)"
  using assms task_exists_iff[of s src] by (simp add: add_task_duplicate)

theorem add_task_duplicate_unchanged_witness:
  "add_task example_world ''bad.torrent'' (empty_service\<lparr>failed := [example_failed_task]\<rparr>)
     = (empty_service\<lparr>failed := [example_failed_task]\<rparr>, False)
   \<and> saved (fst (add_task example_world ''bad.torrent''
                (empty_service\<lparr>failed := [example_failed_task]\<rparr>))) = []"
proof -
  have 1: "in_failed (empty_service\<lparr>failed := [example_failed_task]\<rparr>) ''bad.torrent''"
    by (simp add: in_failed_def example_failed_task_def new_task_def)
  from add_task_duplicate_unchanged[of "empty_service\<lparr>failed := [example_failed_task]\<rparr>"
      "''bad.torrent''" example_world] 1
  show ?thesis by (simp add: empty_service_def)
qed

subsection \<open>Polling\<close>

text \<open>Facts about the \<open>downloading\<close> dict as an association list.\<close>

lemma map_of_split:
  "map_of al k = Some v \<Longrightarrow> \<exists>xs ys. al = xs @ (k, v) # ys \<and> k \<notin> fst ` set xs"
proof (induction al)
  case Nil
  then show ?case by simp
next
  case (Cons a al)
  show ?case
  proof (cases "fst a = k")
    case True
    with Cons.prems have "a = (k, v)" by (cases a) simp
    then have "a # al = [] @ (k, v) # al \<and> k \<notin> fst ` set []" by simp
    then show ?thesis by blast
  next
    case False
    with Cons.prems have "map_of al k = Some v" by (cases a) simp
    from Cons.IH[OF this] obtain xs ys where "al = xs @ (k, v) # ys" "k \<notin> fst ` set xs"
      by blast
    with False have "a # al = (a # xs) @ (k, v) # ys \<and> k \<notin> fst ` set (a # xs)" by auto
    then show ?thesis by blast
  qed
qed

lemma update_split:
  "k \<notin> fst ` set xs \<Longrightarrow> AList.update k v' (xs @ (k, v) # ys) = xs @ (k, v') # ys"
  by (induction xs) auto

lemma delete_split:
  "k \<notin> fst ` set xs \<Longrightarrow> k \<notin> fst ` set ys \<Longrightarrow> AList.delete k (xs @ (k, v) # ys) = xs @ ys"
  by (induction xs) (auto simp: image_iff)

lemma in_update_other:
  "k \<noteq> h \<Longrightarrow> (k, v) \<in> set al \<Longrightarrow> (k, v) \<in> set (AList.update h x al)"
  by (induction al) auto

lemma in_delete_other:
  "k \<noteq> h \<Longrightarrow> (k, v) \<in> set al \<Longrightarrow> (k, v) \<in> set (AList.delete h al)"
  by (induction al) auto

text \<open>One iteration of the polling loop.\<close>

lemma check_task_pending [simp]: "pending (check_task w h t s) = pending s"
  by (simp add: check_task_def complete_task_def save_tasks_def Let_def split: sum.splits)

lemma check_task_failed [simp]: "failed (check_task w h t s) = failed s"
  by (simp add: check_task_def complete_task_def save_tasks_def Let_def split: sum.splits)

lemma check_task_cases:
  "(downloading (check_task w h t s) = downloading s
      \<and> completed (check_task w h t s) = completed s)
   \<or> (\<exists>t1. source t1 = source t
          \<and> downloading (check_task w h t s) = AList.update h t1 (downloading s)
          \<and> completed (check_task w h t s) = completed s)
   \<or> (\<exists>t1. source t1 = source t
          \<and> downloading (check_task w h t s) = AList.delete h (downloading s)
          \<and> completed (check_task w h t s) = completed s @ [t1])"
proof (cases "get_torrent_status w h")
  case (Inl e)
  then show ?thesis by (simp add: check_task_def)
next
  case (Inr st)
  let ?t = "t\<lparr>status := Some st\<rparr>"
  let ?s = "save_tasks (s\<lparr>downloading := AList.update h ?t (downloading s)\<rparr>)"
  have polled: "downloading ?s = AList.update h ?t (downloading s)" "completed ?s = completed s"
    "source ?t = source t"
    by (simp_all add: save_tasks_def)
  have fin: "downloading (complete_task w h t1 s1) = AList.delete h (downloading s)
      \<and> completed (complete_task w h t1 s1) = completed s @ [t1\<lparr>complete_time := Some (clock w (ticks s1))\<rparr>]"
    if "downloading s1 = AList.update h ?t (downloading s)" "completed s1 = completed s"
    for t1 s1
    using that by (simp add: complete_task_def save_tasks_def delete_update_same)
  consider (stay) "check_task w h t s = ?s"
    | (plain) "check_task w h t s = complete_task w h ?t ?s"
    | (uploaded) p r where "check_task w h t s =
        complete_task w h (?t\<lparr>upload_result := Some r\<rparr>)
          (?s\<lparr>upload_log := upload_log ?s @ [(p, upload_reported_ok r)]\<rparr>)"
  proof (cases "truthy (dict_get st ''is_finished'' (JBool False))")
    case False
    with Inr have "check_task w h t s = ?s" by (simp add: check_task_def Let_def)
    then show ?thesis by (rule stay)
  next
    case fin: True
    show ?thesis
    proof (cases "get_download_path w h")
      case (Inl e)
      with Inr fin have "check_task w h t s = ?s" by (simp add: check_task_def Let_def)
      then show ?thesis by (rule stay)
    next
      case dp: (Inr download_path)
      show ?thesis
      proof (cases "path_given download_path")
        case False
        with Inr fin dp have "check_task w h t s = complete_task w h ?t ?s"
          by (simp add: check_task_def Let_def)
        then show ?thesis by (rule plain)
      next
        case given: True
        show ?thesis
        proof (cases "upload_path (uploader w) (the download_path)")
          case (Inl e)
          with Inr fin dp given have "check_task w h t s = ?s"
            by (simp add: check_task_def Let_def)
          then show ?thesis by (rule stay)
        next
          case up: (Inr r)
          with Inr fin dp given have "check_task w h t s =
              complete_task w h (?t\<lparr>upload_result := Some r\<rparr>)
                (?s\<lparr>upload_log := upload_log ?s @ [(the download_path, upload_reported_ok r)]\<rparr>)"
            by (simp add: check_task_def Let_def)
          then show ?thesis by (rule uploaded)
        qed
      qed
    qed
  qed
  then show ?thesis
  proof cases
    case stay
    with polled show ?thesis by metis
  next
    case plain
    have "source (?t\<lparr>complete_time := Some (clock w (ticks ?s))\<rparr>) = source t" by simp
    with plain fin[of ?s ?t] polled show ?thesis by metis
  next
    case uploaded
    let ?s2 = "?s\<lparr>upload_log := upload_log ?s @ [(p, upload_reported_ok r)]\<rparr>"
    have "downloading ?s2 = AList.update h ?t (downloading s)" "completed ?s2 = completed s"
      by (simp_all add: save_tasks_def)
    from fin[OF this, of "?t\<lparr>upload_result := Some r\<rparr>"]
    have "downloading (check_task w h t s) = AList.delete h (downloading s)
        \<and> completed (check_task w h t s)
            = completed s @ [?t\<lparr>upload_result := Some r, complete_time := Some (clock w (ticks ?s2))\<rparr>]"
      using uploaded by simp
    moreover have "source (?t\<lparr>upload_result := Some r, complete_time := Some (clock w (ticks ?s2))\<rparr>)
        = source t" by simp
    ultimately show ?thesis by metis
  qed
qed

lemma check_task_poll_error:
  "get_torrent_status w h = Inl e \<Longrightarrow> check_task w h t s = s"
  by (simp add: check_task_def)

lemma check_task_keeps_other:
  assumes "k \<noteq> h" and "(k, v) \<in> set (downloading s)"
  shows "(k, v) \<in> set (downloading (check_task w h t s))"
  using check_task_cases[of w h t s] assms
  by (auto simp: in_update_other in_delete_other)

lemma check_task_completed_grows:
  "set (completed s) \<subseteq> set (completed (check_task w h t s))"
  using check_task_cases[of w h t s] by auto

lemma check_task_keys_other:
  assumes "k \<noteq> h" and "k \<notin> fst ` set (downloading s)"
  shows "k \<notin> fst ` set (downloading (check_task w h t s))"
proof -
  have upd: "fst ` set (AList.update h x (downloading s)) \<subseteq> insert h (fst ` set (downloading s))"
    for x by (simp add: dom_update)
  have del: "fst ` set (AList.delete h (downloading s)) \<subseteq> insert h (fst ` set (downloading s))"
    using dom_delete_subset[of h "downloading s"] by blast
  have "fst ` set (downloading (check_task w h t s)) \<subseteq> insert h (fst ` set (downloading s))"
    using check_task_cases[of w h t s] upd del by (elim disjE exE conjE) (simp_all only:, blast)
  with assms show ?thesis by blast
qed

lemma check_task_finished:
  assumes "get_torrent_status w h = Inr st"
    and "truthy (dict_get st ''is_finished'' (JBool False))"
    and "get_download_path w h = Inr (Some p)" and "p \<noteq> []"
    and "upload_path (uploader w) p = Inr r"
  shows "completed (check_task w h t s)
           = completed s @ [t\<lparr>status := Some st, upload_result := Some r,
                               complete_time := Some (clock w (ticks s))\<rparr>]"
    and "h \<notin> fst ` set (downloading (check_task w h t s))"
    and "upload_log (check_task w h t s) = upload_log s @ [(p, upload_reported_ok r)]"
    and "saved (check_task w h t s) \<noteq> []"
    and "last (saved (check_task w h t s)) = task_set_of (check_task w h t s)"
  using assms
  by (simp_all add: check_task_def complete_task_def save_tasks_def Let_def path_given_def
      delete_notin_dom task_set_of_def)

text \<open>
  When the upload call raises instead of returning, the iteration ends in the handler:
  the polled status has been stored and written, and the task stays in \<open>downloading\<close>.
\<close>

lemma check_task_upload_raises:
  assumes "get_torrent_status w h = Inr st"
    and "truthy (dict_get st ''is_finished'' (JBool False))"
    and "get_download_path w h = Inr (Some p)" and "p \<noteq> []"
    and "upload_path (uploader w) p = Inl e"
  shows "check_task w h t s =
           save_tasks (s\<lparr>downloading := AList.update h (t\<lparr>status := Some st\<rparr>) (downloading s)\<rparr>)"
  using assms by (simp add: check_task_def Let_def path_given_def)

text \<open>The polling loop.\<close>

lemma downloads_loop_pending [simp]: "pending (downloads_loop w rest s) = pending s"
  by (induction w rest s rule: downloads_loop.induct) simp_all

lemma downloads_loop_failed [simp]: "failed (downloads_loop w rest s) = failed s"
  by (induction w rest s rule: downloads_loop.induct) simp_all

lemma downloads_loop_completed_grows:
  "set (completed s) \<subseteq> set (completed (downloads_loop w rest s))"
proof (induction w rest s rule: downloads_loop.induct)
  case (1 w s)
  show ?case by simp
next
  case (2 w info_hash task rest s)
  with "2" show ?case using check_task_completed_grows[of s w info_hash task] by auto
qed

lemma downloads_loop_keys_other:
  "h \<notin> fst ` set rest \<Longrightarrow> h \<notin> fst ` set (downloading s)
     \<Longrightarrow> h \<notin> fst ` set (downloading (downloads_loop w rest s))"
proof (induction w rest s rule: downloads_loop.induct)
  case (1 w s)
  then show ?case by simp
next
  case (2 w info_hash task rest s)
  from "2.prems" have "h \<noteq> info_hash" "h \<notin> fst ` set rest" by auto
  with "2" check_task_keys_other[of h info_hash s w task] show ?case by simp
qed

lemma downloads_loop_keeps_stalled:
  "get_torrent_status w h = Inl e \<Longrightarrow> (h, t) \<in> set (downloading s)
     \<Longrightarrow> (h, t) \<in> set (downloading (downloads_loop w rest s))"
proof (induction w rest s rule: downloads_loop.induct)
  case (1 w s)
  then show ?case by simp
next
  case (2 w info_hash task rest s)
  have "(h, t) \<in> set (downloading (check_task w info_hash task s))"
  proof (cases "info_hash = h")
    case True
    with "2.prems" show ?thesis by (simp add: check_task_poll_error)
  next
    case False
    with "2.prems" show ?thesis by (intro check_task_keeps_other) auto
  qed
  with "2" show ?case by simp
qed

lemma downloads_loop_finished:
  assumes "get_torrent_status w h = Inr st"
    and "truthy (dict_get st ''is_finished'' (JBool False))"
    and "get_download_path w h = Inr (Some p)" and "p \<noteq> []"
    and "upload_path (uploader w) p = Inr r"
  shows "(h, t) \<in> set rest \<Longrightarrow> distinct (map fst rest) \<Longrightarrow>
     (\<exists>c. t\<lparr>status := Some st, upload_result := Some r, complete_time := Some c\<rparr>
            \<in> set (completed (downloads_loop w rest s)))
     \<and> h \<notin> fst ` set (downloading (downloads_loop w rest s))"
proof (induction rest arbitrary: s)
  case Nil
  then show ?case by simp
next
  case (Cons a rest)
  obtain info_hash task where a: "a = (info_hash, task)" by (cases a)
  show ?case
  proof (cases "a = (h, t)")
    case True
    let ?s1 = "check_task w h t s"
    from Cons.prems True have notin: "h \<notin> fst ` set rest" by auto
    have "t\<lparr>status := Some st, upload_result := Some r,
            complete_time := Some (clock w (ticks s))\<rparr> \<in> set (completed ?s1)"
      unfolding check_task_finished(1)[OF assms] by simp
    then have "t\<lparr>status := Some st, upload_result := Some r,
            complete_time := Some (clock w (ticks s))\<rparr>
               \<in> set (completed (downloads_loop w rest ?s1))"
      using downloads_loop_completed_grows by blast
    moreover have "h \<notin> fst ` set (downloading (downloads_loop w rest ?s1))"
      using notin check_task_finished(2)[OF assms, of t s] by (rule downloads_loop_keys_other)
    ultimately show ?thesis using True by auto
  next
    case False
    with Cons.prems have "(h, t) \<in> set rest" "distinct (map fst rest)" by auto
    from Cons.IH[OF this] show ?thesis using a by simp
  qed
qed

lemma set_update_subset: "set (AList.update h x al) \<subseteq> insert (h, x) (set al)"
  by (induction al) auto

lemma set_delete_subset: "set (AList.delete h al) \<subseteq> set al"
  by (induction al) auto

lemma distinct_move:
  "distinct (P @ (X @ [a] @ Y) @ C @ F) \<Longrightarrow> distinct (P @ (X @ Y) @ (C @ [a]) @ F)"
  by auto

lemma set_move:
  "set (P @ (X @ Y) @ (C @ [a]) @ F) = set (P @ (X @ [a] @ Y) @ C @ F)"
  by auto

lemma store_ok_buckets:
  "store_ok s \<Longrightarrow> pending s' = pending s \<Longrightarrow> downloading s' = downloading s
     \<Longrightarrow> completed s' = completed s \<Longrightarrow> failed s' = failed s \<Longrightarrow> store_ok s'"
  by (simp add: store_ok_def all_sources_def)

lemma store_ok_replace:
  assumes ok: "store_ok s" and dl: "downloading s = xs @ (h, t) # ys"
    and "pending s' = pending s" "failed s' = failed s" "completed s' = completed s"
    and dl': "downloading s' = xs @ (h, t1) # ys" and src: "source t1 = source t"
  shows "store_ok s'"
proof -
  have "all_sources s' = all_sources s"
    using assms by (simp add: all_sources_def)
  moreover have "map fst (downloading s') = map fst (downloading s)"
    using dl dl' by simp
  ultimately show ?thesis using ok by (simp add: store_ok_def)
qed

lemma store_ok_move:
  assumes ok: "store_ok s" and dl: "downloading s = xs @ (h, t) # ys"
    and "pending s' = pending s" "failed s' = failed s" "completed s' = completed s @ [t1]"
    and dl': "downloading s' = xs @ ys" and src: "source t1 = source t"
  shows "store_ok s'"
proof -
  let ?P = "map source (pending s)" and ?X = "map (source \<circ> snd) xs"
  let ?Y = "map (source \<circ> snd) ys" and ?C = "map source (completed s)"
  let ?F = "map source (failed s)"
  have a: "all_sources s = ?P @ (?X @ [source t] @ ?Y) @ ?C @ ?F"
    using dl by (simp add: all_sources_def)
  have b: "all_sources s' = ?P @ (?X @ ?Y) @ (?C @ [source t]) @ ?F"
    using assms by (simp add: all_sources_def)
  have "distinct (all_sources s')"
    using ok unfolding a b store_ok_def by (intro distinct_move) simp
  moreover have "set (all_sources s') = set (all_sources s)"
    unfolding a b by (rule set_move)
  moreover have "distinct (map fst (downloading s'))"
    using ok dl dl' by (simp add: store_ok_def)
  ultimately show ?thesis using ok by (simp add: store_ok_def)
qed

lemma check_task_store_ok:
  assumes ok: "store_ok s" and mem: "(h, t) \<in> set (downloading s)"
  shows "store_ok (check_task w h t s)"
proof -
  let ?s' = "check_task w h t s"
  have keys: "distinct (map fst (downloading s))" using ok by (simp add: store_ok_def)
  with mem have "map_of (downloading s) h = Some t" by simp
  from map_of_split[OF this] obtain xs ys
    where dl: "downloading s = xs @ (h, t) # ys" and hx: "h \<notin> fst ` set xs" by blast
  from keys dl have hy: "h \<notin> fst ` set ys" by auto
  have p: "pending ?s' = pending s" and f: "failed ?s' = failed s" by simp_all
  from check_task_cases[of w h t s] show ?thesis
  proof (elim disjE exE conjE)
    assume "downloading ?s' = downloading s" "completed ?s' = completed s"
    with ok p show ?thesis using f by (rule store_ok_buckets)
  next
    fix t1
    assume *: "source t1 = source t" "downloading ?s' = AList.update h t1 (downloading s)"
      "completed ?s' = completed s"
    have "downloading ?s' = xs @ (h, t1) # ys"
      using * dl hx by (simp add: update_split)
    from ok dl p f *(3) this *(1) show ?thesis by (rule store_ok_replace)
  next
    fix t1
    assume *: "source t1 = source t" "downloading ?s' = AList.delete h (downloading s)"
      "completed ?s' = completed s @ [t1]"
    have "downloading ?s' = xs @ ys"
      using * dl hx hy by (simp add: delete_split)
    from ok dl p f *(3) this *(1) show ?thesis by (rule store_ok_move)
  qed
qed

lemma check_task_sources:
  assumes mem: "(h, t) \<in> set (downloading s)"
  shows "(source \<circ> snd) ` set (downloading (check_task w h t s))
           \<subseteq> (source \<circ> snd) ` set (downloading s)"
    and "source ` set (completed (check_task w h t s))
           \<subseteq> source ` set (completed s) \<union> (source \<circ> snd) ` set (downloading s)"
proof -
  let ?s' = "check_task w h t s"
  have src: "source t \<in> (source \<circ> snd) ` set (downloading s)"
    using mem by force
  from check_task_cases[of w h t s]
  show "(source \<circ> snd) ` set (downloading ?s') \<subseteq> (source \<circ> snd) ` set (downloading s)"
  proof (elim disjE exE conjE)
    assume "downloading ?s' = downloading s"
    then show ?thesis by simp
  next
    fix t1
    assume t1: "source t1 = source t" "downloading ?s' = AList.update h t1 (downloading s)"
    have "(source \<circ> snd) ` set (AList.update h t1 (downloading s))
            \<subseteq> (source \<circ> snd) ` insert (h, t1) (set (downloading s))"
      by (intro image_mono set_update_subset)
    also have "\<dots> = insert (source t) ((source \<circ> snd) ` set (downloading s))"
      using t1(1) by simp
    also have "\<dots> = (source \<circ> snd) ` set (downloading s)"
      using src by (rule insert_absorb)
    finally show ?thesis using t1(2) by simp
  next
    fix t1
    assume "downloading ?s' = AList.delete h (downloading s)"
    then show ?thesis using set_delete_subset[of h "downloading s"] by auto
  qed
  from check_task_cases[of w h t s]
  show "source ` set (completed ?s')
          \<subseteq> source ` set (completed s) \<union> (source \<circ> snd) ` set (downloading s)"
    using src by (elim disjE exE conjE) auto
qed

lemma downloads_loop_store_ok:
  "store_ok s \<Longrightarrow> distinct (map fst rest) \<Longrightarrow> set rest \<subseteq> set (downloading s)
   \<Longrightarrow> store_ok (downloads_loop w rest s)
     \<and> (source \<circ> snd) ` set (downloading (downloads_loop w rest s))
           \<subseteq> (source \<circ> snd) ` set (downloading s)
     \<and> source ` set (completed (downloads_loop w rest s))
           \<subseteq> source ` set (completed s) \<union> (source \<circ> snd) ` set (downloading s)"
proof (induction rest arbitrary: s)
  case Nil
  then show ?case by simp
next
  case (Cons a rest)
  obtain h t where a: "a = (h, t)" by (cases a)
  let ?s1 = "check_task w h t s"
  from Cons.prems a have mem: "(h, t) \<in> set (downloading s)" by simp
  have ok1: "store_ok ?s1" using Cons.prems(1) mem by (rule check_task_store_ok)
  have d: "distinct (map fst rest)" using Cons.prems(2) by simp
  have sub: "set rest \<subseteq> set (downloading ?s1)"
  proof
    fix kv assume kv: "kv \<in> set rest"
    obtain k v where [simp]: "kv = (k, v)" by (cases kv)
    from kv Cons.prems(2) a have "k \<noteq> h" by force
    moreover from kv Cons.prems(3) have "(k, v) \<in> set (downloading s)" by auto
    ultimately show "kv \<in> set (downloading ?s1)"
      using check_task_keeps_other by simp
  qed
  from Cons.IH[OF ok1 d sub]
  have ih1: "store_ok (downloads_loop w rest ?s1)"
    and ih2: "(source \<circ> snd) ` set (downloading (downloads_loop w rest ?s1))
           \<subseteq> (source \<circ> snd) ` set (downloading ?s1)"
    and ih3: "source ` set (completed (downloads_loop w rest ?s1))
           \<subseteq> source ` set (completed ?s1) \<union> (source \<circ> snd) ` set (downloading ?s1)"
    by simp_all
  note step = check_task_sources[OF mem, of w]
  have eq: "downloads_loop w (a # rest) s = downloads_loop w rest ?s1" using a by simp
  have d2: "(source \<circ> snd) ` set (downloading (downloads_loop w rest ?s1))
           \<subseteq> (source \<circ> snd) ` set (downloading s)"
    using ih2 step(1) by (rule order_trans)
  have "source ` set (completed ?s1) \<union> (source \<circ> snd) ` set (downloading ?s1)
          \<subseteq> source ` set (completed s) \<union> (source \<circ> snd) ` set (downloading s)"
    using step(1) step(2) by (intro Un_least) (rule order_trans, assumption, simp)+
  with ih3 have c2: "source ` set (completed (downloads_loop w rest ?s1))
           \<subseteq> source ` set (completed s) \<union> (source \<circ> snd) ` set (downloading s)"
    by (rule order_trans)
  show ?case unfolding eq using ih1 d2 c2 by (intro conjI)
qed

lemma check_downloads_store_ok:
  assumes "store_ok s"
  shows "store_ok (check_downloads w s)"
    and "(source \<circ> snd) ` set (downloading (check_downloads w s))
           \<subseteq> (source \<circ> snd) ` set (downloading s)"
    and "source ` set (completed (check_downloads w s))
           \<subseteq> source ` set (completed s) \<union> (source \<circ> snd) ` set (downloading s)"
    and "pending (check_downloads w s) = pending s"
    and "failed (check_downloads w s) = failed s"
    and "set (completed s) \<subseteq> set (completed (check_downloads w s))"
proof -
  have "distinct (map fst (downloading s))" using assms by (simp add: store_ok_def)
  from downloads_loop_store_ok[OF assms this, of w]
  show "store_ok (check_downloads w s)"
    and "(source \<circ> snd) ` set (downloading (check_downloads w s))
           \<subseteq> (source \<circ> snd) ` set (downloading s)"
    and "source ` set (completed (check_downloads w s))
           \<subseteq> source ` set (completed s) \<union> (source \<circ> snd) ` set (downloading s)"
    using assms by (simp_all add: check_downloads_def)
  show "pending (check_downloads w s) = pending s" "failed (check_downloads w s) = failed s"
    by (simp_all add: check_downloads_def)
  show "set (completed s) \<subseteq> set (completed (check_downloads w s))"
    using downloads_loop_completed_grows by (simp add: check_downloads_def)
qed

lemma store_ok_exclusive:
  assumes "store_ok s" and "(h, t) \<in> set (downloading s)"
  shows "source t \<notin> source ` set (pending s)" "source t \<notin> source ` set (completed s)"
    "source t \<notin> source ` set (failed s)"
proof -
  have "source t \<in> set (map (source \<circ> snd) (downloading s))"
    using assms(2) by force
  moreover have "distinct (map source (pending s) @ map (source \<circ> snd) (downloading s)
      @ map source (completed s) @ map source (failed s))"
    using assms(1) by (simp add: store_ok_def all_sources_def)
  ultimately show "source t \<notin> source ` set (pending s)" "source t \<notin> source ` set (completed s)"
    "source t \<notin> source ` set (failed s)"
    by auto
qed

text \<open>
  A directory artifact: the upload call raises \<open>TypeError\<close> before anything is sent, so
  the iteration ends in the handler with the polled status stored.
\<close>

lemma check_task_directory_artifact:
  assumes "get_torrent_status w h = Inr st"
    and "truthy (dict_get st ''is_finished'' (JBool False))"
    and "get_download_path w h = Inr (Some p)" and "p \<noteq> []"
    and "isdir (uploader w) p"
  shows "check_task w h t s =
           save_tasks (s\<lparr>downloading := AList.update h (t\<lparr>status := Some st\<rparr>) (downloading s)\<rparr>)"
  using assms by (simp add: check_task_def Let_def path_given_def upload_path_def)

lemma in_update_same: "(h, x) \<in> set (AList.update h x al)"
  by (induction al) auto

lemma downloads_loop_keeps_entry:
  "h \<notin> fst ` set rest \<Longrightarrow> (h, v) \<in> set (downloading s)
     \<Longrightarrow> (h, v) \<in> set (downloading (downloads_loop w rest s))"
proof (induction w rest s rule: downloads_loop.induct)
  case (1 w s)
  then show ?case by simp
next
  case (2 w info_hash task rest s)
  from "2.prems" have ne: "h \<noteq> info_hash" and r: "h \<notin> fst ` set rest" by auto
  from ne "2.prems"(2) have "(h, v) \<in> set (downloading (check_task w info_hash task s))"
    by (rule check_task_keeps_other)
  with "2.IH" r show ?case by simp
qed

lemma downloads_loop_upload_raises:
  assumes "get_torrent_status w h = Inr st"
    and "truthy (dict_get st ''is_finished'' (JBool False))"
    and "get_download_path w h = Inr (Some p)" and "p \<noteq> []"
    and "upload_path (uploader w) p = Inl e"
  shows "(h, t) \<in> set rest \<Longrightarrow> distinct (map fst rest) \<Longrightarrow>
     (h, t\<lparr>status := Some st\<rparr>) \<in> set (downloading (downloads_loop w rest s))"
proof (induction rest arbitrary: s)
  case Nil
  then show ?case by simp
next
  case (Cons a rest)
  show ?case
  proof (cases "a = (h, t)")
    case True
    let ?s1 = "check_task w h t s"
    from Cons.prems True have notin: "h \<notin> fst ` set rest" by auto
    have "(h, t\<lparr>status := Some st\<rparr>) \<in> set (downloading ?s1)"
      unfolding check_task_upload_raises[OF assms] by (simp add: save_tasks_def in_update_same)
    with notin have "(h, t\<lparr>status := Some st\<rparr>) \<in> set (downloading (downloads_loop w rest ?s1))"
      by (rule downloads_loop_keeps_entry)
    then show ?thesis using True by simp
  next
    case False
    obtain info_hash task where a: "a = (info_hash, task)" by (cases a)
    from False Cons.prems have "(h, t) \<in> set rest" "distinct (map fst rest)" by auto
    from Cons.IH[OF this] show ?thesis using a by simp
  qed
qed

text \<open>
  C4, as the claim states it, fails when the upload call raises instead of returning: the
  transfer \<open>hash-a.torrent\<close> is reported finished, its artifact is the file
  \<open>/downloads/a.bin\<close>, the drive cannot be reached, and after \<open>check_downloads\<close> the
  task is still in \<open>downloading\<close> and \<open>completed\<close> is empty.
\<close>

theorem check_downloads_upload_raises_stays:
  "get_torrent_status offline_world ''hash-a.torrent''
     = Inr [(''name'', JStr ''hash-a.torrent''), (''is_finished'', JBool True)]
   \<and> get_download_path offline_world ''hash-a.torrent'' = Inr (Some ''/downloads/a.bin'')
   \<and> upload_file (uploader offline_world) ''/downloads/a.bin'' None = Inl ''Connection aborted''
   \<and> downloading (check_downloads offline_world
        (empty_service\<lparr>downloading := [(''hash-a.torrent'', example_downloading_task)]\<rparr>))
       = [(''hash-a.torrent'', example_downloading_task
            \<lparr>status := Some [(''name'', JStr ''hash-a.torrent''), (''is_finished'', JBool True)]\<rparr>)]
   \<and> completed (check_downloads offline_world
        (empty_service\<lparr>downloading := [(''hash-a.torrent'', example_downloading_task)]\<rparr>)) = []"
  by (simp add: check_downloads_def check_task_def offline_world_def offline_cloud_def
      example_world_def example_cloud_def empty_service_def save_tasks_def task_set_of_def
      dict_get_def path_given_def upload_path_def upload_file_def folder_or_default_def
      has_key_def simple_upload_def Let_def)

text \<open>
  C4, amended. Take a task in \<open>downloading\<close> whose poll reports \<open>is_finished\<close> and whose
  artifact path resolves to a path that is not a directory. If the upload call returns a
  result \<open>r\<close>, \<open>check_downloads\<close> moves the task to \<open>completed\<close> with the polled
  status, \<open>upload_result = r\<close> and a completion time, and the task leaves \<open>downloading\<close>;
  nothing is asked of \<open>r\<close>, so a result holding the key \<open>error\<close> is recorded like any
  other. If the upload call raises, the task stays in \<open>downloading\<close> with the polled
  status and, in a store where no source is kept twice, is not in \<open>completed\<close>. In both
  cases \<open>failed\<close> is not touched.
\<close>

theorem check_downloads_finished_file_artifact:
  assumes "(h, t) \<in> set (downloading s)" and "distinct (map fst (downloading s))"
    and "get_torrent_status w h = Inr st"
    and "truthy (dict_get st ''is_finished'' (JBool False))"
    and "get_download_path w h = Inr (Some p)" and "p \<noteq> []"
    and "\<not> isdir (uploader w) p"
  shows "(\<forall>r. upload_file (uploader w) p None = Inr r \<longrightarrow>
            (\<exists>c. t\<lparr>status := Some st, upload_result := Some r, complete_time := Some c\<rparr>
                   \<in> set (completed (check_downloads w s)))
            \<and> h \<notin> fst ` set (downloading (check_downloads w s)))
       \<and> (\<forall>e. upload_file (uploader w) p None = Inl e \<longrightarrow>
            (h, t\<lparr>status := Some st\<rparr>) \<in> set (downloading (check_downloads w s))
            \<and> (store_ok s \<longrightarrow> source t \<notin> source ` set (completed (check_downloads w s))))
       \<and> failed (check_downloads w s) = failed s"
proof -
  let ?s' = "check_downloads w s"
  from assms(1) have ne: "downloading s \<noteq> []" by auto
  then have s': "?s' = downloads_loop w (downloading s) s" by (simp add: check_downloads_def)
  have up: "upload_path (uploader w) p = upload_file (uploader w) p None"
    using assms(7) by (simp add: upload_path_def)
  have returned: "(\<exists>c. t\<lparr>status := Some st, upload_result := Some r, complete_time := Some c\<rparr>
                   \<in> set (completed ?s'))
            \<and> h \<notin> fst ` set (downloading ?s')"
    if "upload_file (uploader w) p None = Inr r" for r
  proof -
    from that up have "upload_path (uploader w) p = Inr r" by simp
    from downloads_loop_finished[OF assms(3-6) this assms(1,2), of s]
    show ?thesis unfolding s' .
  qed
  have raised: "(h, t\<lparr>status := Some st\<rparr>) \<in> set (downloading ?s')
            \<and> (store_ok s \<longrightarrow> source t \<notin> source ` set (completed ?s'))"
    if "upload_file (uploader w) p None = Inl e" for e
  proof -
    from that up have "upload_path (uploader w) p = Inl e" by simp
    from downloads_loop_upload_raises[OF assms(3-6) this assms(1,2), of s]
    have mem: "(h, t\<lparr>status := Some st\<rparr>) \<in> set (downloading ?s')" unfolding s' .
    have "source t \<notin> source ` set (completed ?s')" if ok: "store_ok s"
    proof -
      have "store_ok ?s'" using ok by (rule check_downloads_store_ok)
      from store_ok_exclusive(2)[OF this mem] show ?thesis by simp
    qed
    with mem show ?thesis by simp
  qed
  have "failed ?s' = failed s" by (simp add: check_downloads_def)
  with returned raised show ?thesis by blast
qed

lemma str_int_507: "str_int 507 = ''507''"
proof -
  have "str_nat 5 = ''5''" by (simp add: str_nat.simps[of 5])
  then have "str_nat 50 = ''50''" by (simp add: str_nat.simps[of 50])
  then have "str_nat 507 = ''507''" by (simp add: str_nat.simps[of 507])
  then show ?thesis by (simp add: str_int_def)
qed

theorem check_downloads_finished_file_artifact_witness:
  "(\<exists>c. example_downloading_task
           \<lparr>status := Some [(''name'', JStr ''hash-a.torrent''), (''is_finished'', JBool True)],
            upload_result := Some [(''error'',
              JStr ''Failed to upload file a.bin: 507 - Insufficient Storage'')],
            complete_time := Some c\<rparr>
        \<in> set (completed (check_downloads full_world
              (empty_service\<lparr>downloading := [(''hash-a.torrent'', example_downloading_task)]\<rparr>))))
   \<and> ''hash-a.torrent'' \<notin> fst ` set (downloading (check_downloads full_world
              (empty_service\<lparr>downloading := [(''hash-a.torrent'', example_downloading_task)]\<rparr>)))
   \<and> failed (check_downloads full_world
              (empty_service\<lparr>downloading := [(''hash-a.torrent'', example_downloading_task)]\<rparr>)) = []
   \<and> (''hash-a.torrent'', example_downloading_task
         \<lparr>status := Some [(''name'', JStr ''hash-a.torrent''), (''is_finished'', JBool True)]\<rparr>)
        \<in> set (downloading (check_downloads offline_world
              (empty_service\<lparr>downloading := [(''hash-a.torrent'', example_downloading_task)]\<rparr>)))
   \<and> Some ''a.torrent'' \<notin> source ` set (completed (check_downloads offline_world
              (empty_service\<lparr>downloading := [(''hash-a.torrent'', example_downloading_task)]\<rparr>)))
   \<and> failed (check_downloads offline_world
              (empty_service\<lparr>downloading := [(''hash-a.torrent'', example_downloading_task)]\<rparr>)) = []"
proof -
  let ?s = "empty_service\<lparr>downloading := [(''hash-a.torrent'', example_downloading_task)]\<rparr>"
  let ?st = "[(''name'', JStr ''hash-a.torrent''), (''is_finished'', JBool True)]"
  let ?r = "[(''error'',
              JStr ''Failed to upload file a.bin: 507 - Insufficient Storage'')]"
  have 1: "(''hash-a.torrent'', example_downloading_task) \<in> set (downloading ?s)"
    and 2: "distinct (map fst (downloading ?s))"
    and 4: "truthy (dict_get ?st ''is_finished'' (JBool False))"
    and 6: "''/downloads/a.bin'' \<noteq> []"
    by (simp_all add: dict_get_def)
  have f3: "get_torrent_status full_world ''hash-a.torrent'' = Inr ?st"
    and f5: "get_download_path full_world ''hash-a.torrent'' = Inr (Some ''/downloads/a.bin'')"
    and f7: "\<not> isdir (uploader full_world) ''/downloads/a.bin''"
    by (simp_all add: full_world_def full_cloud_def example_world_def example_cloud_def)
  have f8: "upload_file (uploader full_world) ''/downloads/a.bin'' None = Inr ?r"
    by (simp add: full_world_def full_cloud_def example_world_def example_cloud_def
        upload_file_def folder_or_default_def has_key_def simple_upload_def basename_def
        error_dict_def str_int_507 Let_def)
  have o3: "get_torrent_status offline_world ''hash-a.torrent'' = Inr ?st"
    and o5: "get_download_path offline_world ''hash-a.torrent'' = Inr (Some ''/downloads/a.bin'')"
    and o7: "\<not> isdir (uploader offline_world) ''/downloads/a.bin''"
    by (simp_all add: offline_world_def offline_cloud_def example_world_def example_cloud_def)
  have o8: "upload_file (uploader offline_world) ''/downloads/a.bin'' None
              = Inl ''Connection aborted''"
    by (simp add: offline_world_def offline_cloud_def example_world_def example_cloud_def
        upload_file_def folder_or_default_def has_key_def simple_upload_def Let_def)
  have 9: "store_ok ?s"
    by (simp add: store_ok_def all_sources_def empty_service_def example_downloading_task_def)
  have 10: "failed ?s = []" "source example_downloading_task = Some ''a.torrent''"
    by (simp_all add: empty_service_def example_downloading_task_def)
  from check_downloads_finished_file_artifact[OF 1 2 f3 4 f5 6 f7]
    check_downloads_finished_file_artifact[OF 1 2 o3 4 o5 6 o7] f8 o8 9 10
  show ?thesis by simp
qed

text \<open>
  C7. When polling a task's status raises, \<open>check_downloads\<close> leaves the task in
  \<open>downloading\<close> as it was; it is added neither to \<open>failed\<close>, which is unchanged, nor
  to \<open>completed\<close>, so the next tick polls it again.
\<close>

theorem check_downloads_poll_error_keeps_task:
  assumes "store_ok s" and "(h, t) \<in> set (downloading s)"
    and "get_torrent_status w h = Inl e"
  shows "(h, t) \<in> set (downloading (check_downloads w s))
       \<and> failed (check_downloads w s) = failed s
       \<and> source t \<notin> source ` set (failed (check_downloads w s))
       \<and> source t \<notin> source ` set (completed (check_downloads w s))"
proof -
  have mem: "(h, t) \<in> set (downloading (check_downloads w s))"
    using downloads_loop_keeps_stalled[OF assms(3,2), of "downloading s"] assms(2)
    by (cases "downloading s = []") (simp_all add: check_downloads_def)
  have ok: "store_ok (check_downloads w s)"
    using assms(1) by (rule check_downloads_store_ok)
  from store_ok_exclusive[OF ok mem] mem check_downloads_store_ok(5)[OF assms(1), of w]
  show ?thesis by simp
qed


theorem check_downloads_poll_error_keeps_task_witness:
  "(''hash-stalled'', example_downloading_task)
      \<in> set (downloading (check_downloads example_world
            (empty_service\<lparr>downloading := [(''hash-stalled'', example_downloading_task)]\<rparr>)))
   \<and> failed (check_downloads example_world
            (empty_service\<lparr>downloading := [(''hash-stalled'', example_downloading_task)]\<rparr>)) = []
   \<and> Some ''a.torrent'' \<notin> source ` set (completed (check_downloads example_world
            (empty_service\<lparr>downloading := [(''hash-stalled'', example_downloading_task)]\<rparr>)))"
proof -
  let ?s = "empty_service\<lparr>downloading := [(''hash-stalled'', example_downloading_task)]\<rparr>"
  have 1: "store_ok ?s"
    by (simp add: store_ok_def all_sources_def empty_service_def example_downloading_task_def)
  have 2: "(''hash-stalled'', example_downloading_task) \<in> set (downloading ?s)" by simp
  have 3: "get_torrent_status example_world ''hash-stalled'' = Inl ''Connection refused''"
    by (simp add: example_world_def)
  have 4: "failed ?s = []" "source example_downloading_task = Some ''a.torrent''"
    by (simp_all add: empty_service_def example_downloading_task_def)
  from check_downloads_poll_error_keeps_task[OF 1 2 3] 4
  show ?thesis by simp
qed

subsection \<open>Dispatch\<close>

lemma replace1_split: "t \<notin> set xs \<Longrightarrow> replace1 t t' (xs @ t # ys) = xs @ t' # ys"
  by (induction xs) auto

lemma remove1_split: "t \<notin> set xs \<Longrightarrow> remove1 t (xs @ t # ys) = xs @ ys"
  by (induction xs) auto

lemma update_absent: "h \<notin> fst ` set al \<Longrightarrow> AList.update h v al = al @ [(h, v)]"
  by (induction al) auto

lemma distinct_to_failed:
  "distinct ((X @ [a] @ Y) @ D @ C @ F) \<Longrightarrow> distinct ((X @ Y) @ D @ C @ (F @ [a]))"
  by auto

lemma distinct_to_new_entry:
  "distinct ((X @ [a] @ Y) @ D @ C @ F) \<Longrightarrow> distinct ((X @ Y) @ (D @ [a]) @ C @ F)"
  by auto

lemma distinct_over_entry:
  "distinct ((X @ [a] @ Y) @ (U @ [b] @ V) @ C @ F)
     \<Longrightarrow> distinct ((X @ Y) @ (U @ [a] @ V) @ C @ F)"
  by auto

lemma store_ok_fail:
  assumes ok: "store_ok s" and p: "pending s = xs @ t # ys" and p': "pending s' = xs @ ys"
    and f': "failed s' = failed s @ [t']" and src: "source t' = source t"
    and d': "downloading s' = downloading s" and c': "completed s' = completed s"
  shows "store_ok s'"
proof -
  let ?X = "map source xs" and ?Y = "map source ys"
  let ?D = "map (source \<circ> snd) (downloading s)" and ?C = "map source (completed s)"
  let ?F = "map source (failed s)"
  have a: "all_sources s = (?X @ [source t] @ ?Y) @ ?D @ ?C @ ?F"
    using p by (simp add: all_sources_def)
  have b: "all_sources s' = (?X @ ?Y) @ ?D @ ?C @ (?F @ [source t])"
    using p' f' src d' c' by (simp add: all_sources_def)
  have "distinct (all_sources s')"
    using ok[unfolded store_ok_def a, THEN conjunct1] unfolding b by (rule distinct_to_failed)
  moreover have "set (all_sources s') = set (all_sources s)"
    unfolding a b by auto
  ultimately show ?thesis using ok d' by (simp add: store_ok_def)
qed

lemma store_ok_start_new:
  assumes ok: "store_ok s" and p: "pending s = xs @ t # ys" and p': "pending s' = xs @ ys"
    and d': "downloading s' = downloading s @ [(h, entry)]"
    and h: "h \<notin> fst ` set (downloading s)" and src: "source entry = source t"
    and f': "failed s' = failed s" and c': "completed s' = completed s"
  shows "store_ok s'"
proof -
  let ?X = "map source xs" and ?Y = "map source ys"
  let ?D = "map (source \<circ> snd) (downloading s)" and ?C = "map source (completed s)"
  let ?F = "map source (failed s)"
  have a: "all_sources s = (?X @ [source t] @ ?Y) @ ?D @ ?C @ ?F"
    using p by (simp add: all_sources_def)
  have b: "all_sources s' = (?X @ ?Y) @ (?D @ [source t]) @ ?C @ ?F"
    using p' f' src d' c' by (simp add: all_sources_def)
  have "distinct (all_sources s')"
    using ok[unfolded store_ok_def a, THEN conjunct1] unfolding b by (rule distinct_to_new_entry)
  moreover have "set (all_sources s') = set (all_sources s)"
    unfolding a b by auto
  moreover have "distinct (map fst (downloading s'))"
    using ok d' h by (simp add: store_ok_def)
  ultimately show ?thesis using ok by (simp add: store_ok_def)
qed

lemma store_ok_start_over:
  assumes ok: "store_ok s" and p: "pending s = xs @ t # ys" and p': "pending s' = xs @ ys"
    and d: "downloading s = us @ (h, old) # vs"
    and d': "downloading s' = us @ (h, entry) # vs" and src: "source entry = source t"
    and f': "failed s' = failed s" and c': "completed s' = completed s"
  shows "store_ok s'"
proof -
  let ?X = "map source xs" and ?Y = "map source ys"
  let ?U = "map (source \<circ> snd) us" and ?V = "map (source \<circ> snd) vs"
  let ?C = "map source (completed s)" and ?F = "map source (failed s)"
  have a: "all_sources s = (?X @ [source t] @ ?Y) @ (?U @ [source old] @ ?V) @ ?C @ ?F"
    using p d by (simp add: all_sources_def)
  have b: "all_sources s' = (?X @ ?Y) @ (?U @ [source t] @ ?V) @ ?C @ ?F"
    using p' f' src d' c' by (simp add: all_sources_def)
  have "distinct (all_sources s')"
    using ok[unfolded store_ok_def a, THEN conjunct1] unfolding b by (rule distinct_over_entry)
  moreover have "set (all_sources s') \<subseteq> set (all_sources s)"
    unfolding a b by (simp add: subset_iff)
  then have "None \<notin> set (all_sources s')"
    using ok[unfolded store_ok_def] by blast
  moreover have "distinct (map fst (downloading s'))"
    using ok d d' by (simp add: store_ok_def)
  ultimately show ?thesis unfolding store_ok_def by (intro conjI)
qed

lemma pending_has_source:
  assumes "store_ok s" and "t \<in> set (pending s)"
  shows "\<exists>x. source t = Some x"
proof -
  have "source t \<in> set (all_sources s)" using assms(2) by (simp add: all_sources_def)
  with assms(1) have "source t \<noteq> None" unfolding store_ok_def by metis
  then show ?thesis by auto
qed

lemma pending_split:
  assumes "store_ok s" and "t \<in> set (pending s)"
  shows "\<exists>xs ys. pending s = xs @ t # ys \<and> t \<notin> set xs \<and> source t \<notin> source ` set xs"
proof -
  from split_list_first[OF assms(2)] obtain xs ys
    where p: "pending s = xs @ t # ys" and nx: "t \<notin> set xs" by blast
  have "distinct (map source (pending s))"
    using assms(1) by (simp add: store_ok_def all_sources_def)
  with p have "source t \<notin> source ` set xs" by simp
  with p nx show ?thesis by blast
qed

lemma dispatch_task_failure:
  assumes "source t = Some x" and "add_torrent w x = Inl e"
  shows "dispatch_task w t s =
           (save_tasks (s\<lparr>failed := failed s @ [t\<lparr>error := Some e\<rparr>],
                          pending := remove1 (t\<lparr>error := Some e\<rparr>)
                                       (replace1 t (t\<lparr>error := Some e\<rparr>) (pending s))\<rparr>),
            None)"
  using assms by (simp add: dispatch_task_def Let_def)

lemma dispatch_task_success:
  assumes "source t = Some x" and "add_torrent w x = Inr h"
  shows "\<exists>entry. source entry = Some x \<and> dispatch_task w t s =
           (save_tasks (s\<lparr>downloading := AList.update h entry (downloading s),
                          pending := remove1 t (pending s), ticks := ticks s + 2\<rparr>),
            None)"
proof -
  let ?entry = "\<lparr>source = Some x,
     added_time = Some (case added_time t of None \<Rightarrow> clock w (ticks s + 1) | Some a \<Rightarrow> a),
     start_time = Some (clock w (ticks s)), status = None,
     upload_result = None, complete_time = None, error = None\<rparr>"
  have "source ?entry = Some x \<and> dispatch_task w t s =
           (save_tasks (s\<lparr>downloading := AList.update h ?entry (downloading s),
                          pending := remove1 t (pending s), ticks := ticks s + 2\<rparr>),
            None)"
    using assms by (simp add: dispatch_task_def Let_def)
  then show ?thesis by (rule exI)
qed

lemma dispatch_task_step:
  assumes ok: "store_ok s" and mem: "t \<in> set (pending s)"
  shows "snd (dispatch_task w t s) = None"
    and "store_ok (fst (dispatch_task w t s))"
    and "pending (fst (dispatch_task w t s)) = remove1 t (pending s)"
    and "completed (fst (dispatch_task w t s)) = completed s"
    and "set (failed s) \<subseteq> set (failed (fst (dispatch_task w t s)))"
    and "source ` set (failed (fst (dispatch_task w t s)))
           \<subseteq> source ` set (failed s) \<union> source ` set (pending s)"
    and "(source \<circ> snd) ` set (downloading (fst (dispatch_task w t s)))
           \<subseteq> (source \<circ> snd) ` set (downloading s) \<union> source ` set (pending s)"
    and "saved (fst (dispatch_task w t s)) \<noteq> []"
    and "last (saved (fst (dispatch_task w t s))) = task_set_of (fst (dispatch_task w t s))"
proof -
  let ?s' = "fst (dispatch_task w t s)"
  from pending_has_source[OF ok mem] obtain x where x: "source t = Some x" ..
  from pending_split[OF ok mem] obtain xs ys
    where p: "pending s = xs @ t # ys" and nx: "t \<notin> set xs"
      and sx: "source t \<notin> source ` set xs" by blast
  have rm: "remove1 t (pending s) = xs @ ys" using p nx by (simp add: remove1_split)
  have src_in: "source t \<in> source ` set (pending s)" using mem by simp
  have all: "snd (dispatch_task w t s) = None \<and> store_ok ?s'
      \<and> pending ?s' = remove1 t (pending s) \<and> completed ?s' = completed s
      \<and> set (failed s) \<subseteq> set (failed ?s')
      \<and> source ` set (failed ?s') \<subseteq> source ` set (failed s) \<union> source ` set (pending s)
      \<and> (source \<circ> snd) ` set (downloading ?s')
           \<subseteq> (source \<circ> snd) ` set (downloading s) \<union> source ` set (pending s)
      \<and> saved ?s' \<noteq> [] \<and> last (saved ?s') = task_set_of ?s'"
  proof (cases "add_torrent w x")
    case (Inl e)
    let ?t' = "t\<lparr>error := Some e\<rparr>"
    have "source ?t' = source t" by simp
    then have "?t' \<notin> set xs" using sx by (metis imageI)
    then have rm': "remove1 ?t' (replace1 t ?t' (pending s)) = xs @ ys"
      using p nx by (simp add: replace1_split remove1_split)
    have eq: "dispatch_task w t s =
           (save_tasks (s\<lparr>failed := failed s @ [?t'], pending := xs @ ys\<rparr>), None)"
      using dispatch_task_failure[OF x Inl, of s] rm' by simp
    have fields: "pending ?s' = xs @ ys" "failed ?s' = failed s @ [?t']"
      "downloading ?s' = downloading s" "completed ?s' = completed s"
      by (simp_all add: eq save_tasks_def)
    have "store_ok ?s'"
      using ok p fields(1,2) _ fields(3,4) by (rule store_ok_fail) simp
    moreover have "saved ?s' \<noteq> []" "last (saved ?s') = task_set_of ?s'"
      by (simp_all add: eq save_tasks_def task_set_of_def)
    moreover have "source ` set (failed ?s') \<subseteq> source ` set (failed s) \<union> source ` set (pending s)"
      using src_in unfolding fields by auto
    moreover have "set (failed s) \<subseteq> set (failed ?s')"
      unfolding fields by auto
    ultimately show ?thesis using fields(1,3,4) rm eq by simp
  next
    case (Inr h)
    from dispatch_task_success[OF x Inr, of s] obtain entry
      where e: "source entry = Some x"
        and eq: "dispatch_task w t s =
           (save_tasks (s\<lparr>downloading := AList.update h entry (downloading s),
                          pending := remove1 t (pending s), ticks := ticks s + 2\<rparr>), None)"
      by blast
    have fields: "pending ?s' = xs @ ys" "failed ?s' = failed s"
      "downloading ?s' = AList.update h entry (downloading s)" "completed ?s' = completed s"
      by (simp_all add: eq save_tasks_def rm)
    have se: "source entry = source t" using e x by simp
    have ok': "store_ok ?s'"
    proof (cases "h \<in> fst ` set (downloading s)")
      case False
      then have "downloading ?s' = downloading s @ [(h, entry)]"
        using fields(3) by (simp add: update_absent)
      from ok p fields(1) this False se fields(2,4) show ?thesis by (rule store_ok_start_new)
    next
      case True
      then obtain old where "map_of (downloading s) h = Some old"
        by (metis map_of_eq_None_iff not_None_eq)
      from map_of_split[OF this] obtain us vs
        where d: "downloading s = us @ (h, old) # vs" and hu: "h \<notin> fst ` set us" by blast
      then have "downloading ?s' = us @ (h, entry) # vs"
        using fields(3) by (simp add: update_split)
      from ok p fields(1) d this se fields(2,4) show ?thesis by (rule store_ok_start_over)
    qed
    have "(source \<circ> snd) ` set (AList.update h entry (downloading s))
            \<subseteq> (source \<circ> snd) ` insert (h, entry) (set (downloading s))"
      by (intro image_mono set_update_subset)
    then have "(source \<circ> snd) ` set (downloading ?s')
           \<subseteq> (source \<circ> snd) ` set (downloading s) \<union> source ` set (pending s)"
      using src_in se unfolding fields by auto
    moreover have "saved ?s' \<noteq> []" "last (saved ?s') = task_set_of ?s'"
      by (simp_all add: eq save_tasks_def task_set_of_def)
    ultimately show ?thesis using ok' fields rm eq by simp
  qed
  then show "snd (dispatch_task w t s) = None"
    and "store_ok (fst (dispatch_task w t s))"
    and "pending (fst (dispatch_task w t s)) = remove1 t (pending s)"
    and "completed (fst (dispatch_task w t s)) = completed s"
    and "set (failed s) \<subseteq> set (failed (fst (dispatch_task w t s)))"
    and "source ` set (failed (fst (dispatch_task w t s)))
           \<subseteq> source ` set (failed s) \<union> source ` set (pending s)"
    and "(source \<circ> snd) ` set (downloading (fst (dispatch_task w t s)))
           \<subseteq> (source \<circ> snd) ` set (downloading s) \<union> source ` set (pending s)"
    and "saved (fst (dispatch_task w t s)) \<noteq> []"
    and "last (saved (fst (dispatch_task w t s))) = task_set_of (fst (dispatch_task w t s))"
    by blast+
qed

lemma pending_loop_inv:
  "store_ok s \<Longrightarrow> distinct rest \<Longrightarrow> set rest \<subseteq> set (pending s) \<Longrightarrow>
     snd (pending_loop w rest s) = None
     \<and> store_ok (fst (pending_loop w rest s))
     \<and> completed (fst (pending_loop w rest s)) = completed s
     \<and> set (pending (fst (pending_loop w rest s))) \<subseteq> set (pending s)
     \<and> set (failed s) \<subseteq> set (failed (fst (pending_loop w rest s)))
     \<and> source ` set (failed (fst (pending_loop w rest s)))
          \<subseteq> source ` set (failed s) \<union> source ` set (pending s)
     \<and> (source \<circ> snd) ` set (downloading (fst (pending_loop w rest s)))
          \<subseteq> (source \<circ> snd) ` set (downloading s) \<union> source ` set (pending s)
     \<and> (rest \<noteq> [] \<longrightarrow> saved (fst (pending_loop w rest s)) \<noteq> []
           \<and> last (saved (fst (pending_loop w rest s)))
               = task_set_of (fst (pending_loop w rest s)))"
proof (induction rest arbitrary: s)
  case Nil
  then show ?case by simp
next
  case (Cons t rest)
  let ?s1 = "fst (dispatch_task w t s)"
  let ?s' = "fst (pending_loop w rest ?s1)"
  from Cons.prems have mem: "t \<in> set (pending s)" by simp
  note step = dispatch_task_step[OF Cons.prems(1) mem, of w]
  have d1: "dispatch_task w t s = (?s1, None)"
    using step(1) by (simp add: prod_eq_iff)
  have eq: "pending_loop w (t # rest) s = pending_loop w rest ?s1"
    by (subst pending_loop.simps(2), subst d1) simp
  have dr: "distinct rest" and tn: "t \<notin> set rest" using Cons.prems(2) by simp_all
  have sub: "set rest \<subseteq> set (pending ?s1)"
  proof
    fix u assume u: "u \<in> set rest"
    with tn have "u \<noteq> t" by auto
    moreover from u Cons.prems(3) have "u \<in> set (pending s)" by auto
    ultimately show "u \<in> set (pending ?s1)" unfolding step(3) by simp
  qed
  from Cons.IH[OF step(2) dr sub]
  have ih1: "snd (pending_loop w rest ?s1) = None" and ih2: "store_ok ?s'"
    and ih3: "completed ?s' = completed ?s1"
    and ih4: "set (pending ?s') \<subseteq> set (pending ?s1)"
    and ih5: "set (failed ?s1) \<subseteq> set (failed ?s')"
    and ih6: "source ` set (failed ?s') \<subseteq> source ` set (failed ?s1) \<union> source ` set (pending ?s1)"
    and ih7: "(source \<circ> snd) ` set (downloading ?s')
          \<subseteq> (source \<circ> snd) ` set (downloading ?s1) \<union> source ` set (pending ?s1)"
    and ih8: "rest \<noteq> [] \<longrightarrow> saved ?s' \<noteq> [] \<and> last (saved ?s') = task_set_of ?s'"
    by simp_all
  have p1: "set (pending ?s1) \<subseteq> set (pending s)"
    unfolding step(3) by (rule set_remove1_subset)
  then have sp1: "source ` set (pending ?s1) \<subseteq> source ` set (pending s)"
    by (rule image_mono)
  have c: "completed ?s' = completed s" using ih3 step(4) by simp
  have p: "set (pending ?s') \<subseteq> set (pending s)" using ih4 p1 by (rule order_trans)
  have f: "set (failed s) \<subseteq> set (failed ?s')" using step(5) ih5 by (rule order_trans)
  have "source ` set (failed ?s1) \<union> source ` set (pending ?s1)
          \<subseteq> source ` set (failed s) \<union> source ` set (pending s)"
    using step(6) sp1 by (intro Un_least) (rule order_trans, assumption, simp)+
  with ih6 have fs: "source ` set (failed ?s')
          \<subseteq> source ` set (failed s) \<union> source ` set (pending s)"
    by (rule order_trans)
  have "(source \<circ> snd) ` set (downloading ?s1) \<union> source ` set (pending ?s1)
          \<subseteq> (source \<circ> snd) ` set (downloading s) \<union> source ` set (pending s)"
    using step(7) sp1 by (intro Un_least) (rule order_trans, assumption, simp)+
  with ih7 have ds: "(source \<circ> snd) ` set (downloading ?s')
          \<subseteq> (source \<circ> snd) ` set (downloading s) \<union> source ` set (pending s)"
    by (rule order_trans)
  have sv: "saved ?s' \<noteq> [] \<and> last (saved ?s') = task_set_of ?s'"
  proof (cases "rest = []")
    case True
    then show ?thesis using step(8,9) by simp
  next
    case False
    with ih8 show ?thesis by simp
  qed
  note sv1 = sv[THEN conjunct1] and sv2 = sv[THEN conjunct2]
  show ?case unfolding eq using ih1 ih2 c p f fs ds sv1 sv2 by (intro conjI impI)
qed

lemma pending_loop_failed:
  "store_ok s \<Longrightarrow> distinct rest \<Longrightarrow> set rest \<subseteq> set (pending s) \<Longrightarrow> t \<in> set rest
     \<Longrightarrow> source t = Some x \<Longrightarrow> add_torrent w x = Inl e
     \<Longrightarrow> t\<lparr>error := Some e\<rparr> \<in> set (failed (fst (pending_loop w rest s)))"
proof (induction rest arbitrary: s)
  case Nil
  then show ?case by simp
next
  case (Cons u rest)
  let ?s1 = "fst (dispatch_task w u s)"
  from Cons.prems have mem: "u \<in> set (pending s)" by simp
  note step = dispatch_task_step[OF Cons.prems(1) mem, of w]
  have d1: "dispatch_task w u s = (?s1, None)"
    using step(1) by (simp add: prod_eq_iff)
  have eq: "pending_loop w (u # rest) s = pending_loop w rest ?s1"
    by (subst pending_loop.simps(2), subst d1) simp
  have dr: "distinct rest" and un: "u \<notin> set rest" using Cons.prems(2) by simp_all
  have sub: "set rest \<subseteq> set (pending ?s1)"
  proof
    fix v assume v: "v \<in> set rest"
    with un have "v \<noteq> u" by auto
    moreover from v Cons.prems(3) have "v \<in> set (pending s)" by auto
    ultimately show "v \<in> set (pending ?s1)" unfolding step(3) by simp
  qed
  show ?case
  proof (cases "u = t")
    case True
    have "failed ?s1 = failed s @ [t\<lparr>error := Some e\<rparr>]"
      using dispatch_task_failure[OF Cons.prems(5,6), of s] True by (simp add: save_tasks_def)
    then have "t\<lparr>error := Some e\<rparr> \<in> set (failed ?s1)" by simp
    moreover have "set (failed ?s1) \<subseteq> set (failed (fst (pending_loop w rest ?s1)))"
      using pending_loop_inv[OF step(2) dr sub, of w] by simp
    ultimately show ?thesis unfolding eq by blast
  next
    case False
    with Cons.prems(4) have "t \<in> set rest" by simp
    from Cons.IH[OF step(2) dr sub this Cons.prems(5,6)] show ?thesis unfolding eq .
  qed
qed

lemma store_ok_pending_distinct: "store_ok s \<Longrightarrow> distinct (pending s)"
  by (simp add: store_ok_def all_sources_def distinct_map)

lemma store_ok_failed_exclusive:
  assumes "store_ok s" and "t \<in> set (failed s)"
  shows "source t \<notin> source ` set (pending s)"
    and "source t \<notin> (source \<circ> snd) ` set (downloading s)"
    and "source t \<notin> source ` set (completed s)"
proof -
  have "source t \<in> set (map source (failed s))" using assms(2) by simp
  moreover have "distinct (map source (pending s) @ map (source \<circ> snd) (downloading s)
      @ map source (completed s) @ map source (failed s))"
    using assms(1) by (simp add: store_ok_def all_sources_def)
  ultimately show "source t \<notin> source ` set (pending s)"
    and "source t \<notin> (source \<circ> snd) ` set (downloading s)"
    and "source t \<notin> source ` set (completed s)"
    by auto
qed

text \<open>
  C6. When \<open>add_torrent\<close> raises for a pending task, \<open>process_pending_tasks\<close> appends the
  task, with \<open>error\<close> set to the text of the exception, to \<open>failed\<close>; after the call
  no task with that source is in \<open>pending\<close> or in \<open>downloading\<close>, the call returns
  normally, and the last task set handed to the persistence write is the final one.
\<close>

theorem process_pending_tasks_add_torrent_error:
  assumes "store_ok s" and "t \<in> set (pending s)" and "source t = Some x"
    and "add_torrent w x = Inl e"
  shows "t\<lparr>error := Some e\<rparr> \<in> set (failed (fst (process_pending_tasks w s)))
       \<and> Some x \<notin> source ` set (pending (fst (process_pending_tasks w s)))
       \<and> Some x \<notin> (source \<circ> snd) ` set (downloading (fst (process_pending_tasks w s)))
       \<and> snd (process_pending_tasks w s) = None
       \<and> saved (fst (process_pending_tasks w s)) \<noteq> []
       \<and> last (saved (fst (process_pending_tasks w s)))
           = task_set_of (fst (process_pending_tasks w s))"
proof -
  from assms(2) have ne: "pending s \<noteq> []" by auto
  then have eq: "process_pending_tasks w s = pending_loop w (pending s) s"
    by (simp add: process_pending_tasks_def)
  have d: "distinct (pending s)" using assms(1) by (rule store_ok_pending_distinct)
  have sub: "set (pending s) \<subseteq> set (pending s)" by simp
  note inv = pending_loop_inv[OF assms(1) d sub, of w]
  have f: "t\<lparr>error := Some e\<rparr> \<in> set (failed (fst (process_pending_tasks w s)))"
    unfolding eq using assms(1) d sub assms(2,3,4) by (rule pending_loop_failed)
  have ok: "store_ok (fst (process_pending_tasks w s))" unfolding eq using inv by simp
  have "source (t\<lparr>error := Some e\<rparr>) = Some x" using assms(3) by simp
  with store_ok_failed_exclusive(1,2)[OF ok f]
  have "Some x \<notin> source ` set (pending (fst (process_pending_tasks w s)))"
    "Some x \<notin> (source \<circ> snd) ` set (downloading (fst (process_pending_tasks w s)))"
    by simp_all
  moreover have "snd (process_pending_tasks w s) = None"
    "saved (fst (process_pending_tasks w s)) \<noteq> []"
    "last (saved (fst (process_pending_tasks w s))) = task_set_of (fst (process_pending_tasks w s))"
    unfolding eq using inv ne by simp_all
  ultimately show ?thesis using f by (intro conjI)
qed

theorem process_pending_tasks_add_torrent_error_witness:
  "example_failed_task
      \<in> set (failed (fst (process_pending_tasks example_world
            (empty_service\<lparr>pending := [new_task ''bad.torrent'' 7]\<rparr>))))
   \<and> Some ''bad.torrent''
      \<notin> source ` set (pending (fst (process_pending_tasks example_world
            (empty_service\<lparr>pending := [new_task ''bad.torrent'' 7]\<rparr>))))
   \<and> Some ''bad.torrent''
      \<notin> (source \<circ> snd) ` set (downloading (fst (process_pending_tasks example_world
            (empty_service\<lparr>pending := [new_task ''bad.torrent'' 7]\<rparr>))))
   \<and> last (saved (fst (process_pending_tasks example_world
            (empty_service\<lparr>pending := [new_task ''bad.torrent'' 7]\<rparr>))))
      = task_set_of (fst (process_pending_tasks example_world
            (empty_service\<lparr>pending := [new_task ''bad.torrent'' 7]\<rparr>)))"
proof -
  let ?s = "empty_service\<lparr>pending := [new_task ''bad.torrent'' 7]\<rparr>"
  have 1: "store_ok ?s"
    by (simp add: store_ok_def all_sources_def empty_service_def new_task_def)
  have 2: "new_task ''bad.torrent'' 7 \<in> set (pending ?s)" by simp
  have 3: "source (new_task ''bad.torrent'' 7) = Some ''bad.torrent''"
    by (simp add: new_task_def)
  have 4: "add_torrent example_world ''bad.torrent'' = Inl ''No such file or directory''"
    by (simp add: example_world_def)
  from process_pending_tasks_add_torrent_error[OF 1 2 3 4]
  show ?thesis by (simp add: example_failed_task_def)
qed

subsection \<open>Forward movement\<close>

lemma store_ok_disjoint:
  assumes "store_ok s"
  shows "\<not> (in_pending s x \<and> in_downloading s x)" "\<not> (in_pending s x \<and> in_completed s x)"
    "\<not> (in_pending s x \<and> in_failed s x)" "\<not> (in_downloading s x \<and> in_completed s x)"
    "\<not> (in_downloading s x \<and> in_failed s x)" "\<not> (in_completed s x \<and> in_failed s x)"
proof -
  have "distinct (map source (pending s) @ map (source \<circ> snd) (downloading s)
      @ map source (completed s) @ map source (failed s))"
    using assms by (simp add: store_ok_def all_sources_def)
  then have "set (map source (pending s)) \<inter> set (map (source \<circ> snd) (downloading s)) = {}"
    "set (map source (pending s)) \<inter> set (map source (completed s)) = {}"
    "set (map source (pending s)) \<inter> set (map source (failed s)) = {}"
    "set (map (source \<circ> snd) (downloading s)) \<inter> set (map source (completed s)) = {}"
    "set (map (source \<circ> snd) (downloading s)) \<inter> set (map source (failed s)) = {}"
    "set (map source (completed s)) \<inter> set (map source (failed s)) = {}"
    by auto
  then show "\<not> (in_pending s x \<and> in_downloading s x)" "\<not> (in_pending s x \<and> in_completed s x)"
    "\<not> (in_pending s x \<and> in_failed s x)" "\<not> (in_downloading s x \<and> in_completed s x)"
    "\<not> (in_downloading s x \<and> in_failed s x)" "\<not> (in_completed s x \<and> in_failed s x)"
    unfolding in_pending_def in_downloading_def in_completed_def in_failed_def
    by (simp_all add: disjoint_iff)
qed

lemma forward_only:
  assumes ok: "store_ok s"
    and P: "\<And>x. in_pending s' x \<Longrightarrow>
              in_pending s x \<or> \<not> (in_downloading s x \<or> in_completed s x \<or> in_failed s x)"
    and D: "\<And>x. in_downloading s' x \<Longrightarrow> in_pending s x \<or> in_downloading s x"
    and C1: "\<And>x. in_completed s x \<Longrightarrow> in_completed s' x"
    and C2: "\<And>x. in_completed s' x \<Longrightarrow> in_downloading s x \<or> in_completed s x"
    and F1: "\<And>x. in_failed s x \<Longrightarrow> in_failed s' x"
    and F2: "\<And>x. in_failed s' x \<Longrightarrow> in_pending s x \<or> in_failed s x"
  shows "(\<forall>x. in_downloading s x \<or> in_completed s x \<or> in_failed s x \<longrightarrow> \<not> in_pending s' x)
       \<and> (\<forall>x. in_completed s x \<or> in_failed s x \<longrightarrow> \<not> in_downloading s' x)
       \<and> (\<forall>x. in_completed s x \<longrightarrow> in_completed s' x)
       \<and> (\<forall>x. in_failed s x \<longrightarrow> in_failed s' x)
       \<and> (\<forall>x. in_downloading s' x \<longrightarrow> in_pending s x \<or> in_downloading s x)
       \<and> (\<forall>x. in_completed s' x \<longrightarrow> in_downloading s x \<or> in_completed s x)
       \<and> (\<forall>x. in_failed s' x \<longrightarrow> in_pending s x \<or> in_failed s x)"
proof -
  have a: "\<not> in_pending s' x" if "in_downloading s x \<or> in_completed s x \<or> in_failed s x" for x
    using that P[of x] store_ok_disjoint[OF ok, of x] by blast
  have b: "\<not> in_downloading s' x" if "in_completed s x \<or> in_failed s x" for x
    using that D[of x] store_ok_disjoint[OF ok, of x] by blast
  show ?thesis using a b C1 C2 D F1 F2 by blast
qed

lemma distinct_insert_middle:
  "distinct (P @ R) \<Longrightarrow> a \<notin> set (P @ R) \<Longrightarrow> distinct (P @ [a] @ R)"
  by auto

lemma add_task_forward:
  assumes ok: "store_ok s"
  shows "store_ok (fst (add_task w src s))"
    and "downloading (fst (add_task w src s)) = downloading s"
    and "completed (fst (add_task w src s)) = completed s"
    and "failed (fst (add_task w src s)) = failed s"
    and "in_pending (fst (add_task w src s)) x \<Longrightarrow>
           in_pending s x \<or> \<not> (in_downloading s x \<or> in_completed s x \<or> in_failed s x)"
proof -
  show "downloading (fst (add_task w src s)) = downloading s"
    "completed (fst (add_task w src s)) = completed s"
    "failed (fst (add_task w src s)) = failed s"
    by (simp_all add: add_task_def save_tasks_def)
  show "store_ok (fst (add_task w src s))"
  proof (cases "task_exists s src")
    case True
    then show ?thesis using ok by (simp add: add_task_duplicate)
  next
    case False
    then have fresh: "Some src \<notin> set (all_sources s)" by (simp add: task_exists_all_sources)
    let ?R = "map (source \<circ> snd) (downloading s) @ map source (completed s)
                @ map source (failed s)"
    have a: "all_sources s = map source (pending s) @ ?R" by (simp add: all_sources_def)
    have b: "all_sources (fst (add_task w src s)) = map source (pending s) @ [Some src] @ ?R"
      by (simp add: all_sources_add_task_fresh[OF False])
    have "distinct (all_sources (fst (add_task w src s)))"
      using ok[unfolded store_ok_def a, THEN conjunct1] fresh[unfolded a] unfolding b
      by (rule distinct_insert_middle)
    moreover have "None \<notin> set (all_sources (fst (add_task w src s)))"
      using ok[unfolded store_ok_def a] unfolding b by simp
    moreover have "downloading (fst (add_task w src s)) = downloading s"
      by (simp add: add_task_def save_tasks_def)
    ultimately show ?thesis using ok by (simp add: store_ok_def)
  qed
  show "in_pending s x \<or> \<not> (in_downloading s x \<or> in_completed s x \<or> in_failed s x)"
    if "in_pending (fst (add_task w src s)) x"
  proof (cases "task_exists s src")
    case True
    with that show ?thesis by (simp add: add_task_duplicate)
  next
    case False
    from that have "in_pending s x \<or> x = src"
      by (auto simp: add_task_fresh[OF False] in_pending_def save_tasks_def new_task_def)
    with False show ?thesis using task_exists_iff[of s src] by blast
  qed
qed

lemma distinct_filter_le_1: "distinct xs \<Longrightarrow> length (filter (\<lambda>y. y = a) xs) \<le> 1"
  by (induction xs) (auto simp: filter_empty_conv)

lemma store_ok_empty: "store_ok empty_service"
  by (simp add: store_ok_def all_sources_def empty_service_def)

lemma process_pending_tasks_forward:
  assumes ok: "store_ok s"
  shows "store_ok (fst (process_pending_tasks w s))"
    and "in_pending (fst (process_pending_tasks w s)) x \<Longrightarrow> in_pending s x"
    and "in_downloading (fst (process_pending_tasks w s)) x \<Longrightarrow> in_pending s x \<or> in_downloading s x"
    and "in_completed (fst (process_pending_tasks w s)) x \<longleftrightarrow> in_completed s x"
    and "in_failed s x \<Longrightarrow> in_failed (fst (process_pending_tasks w s)) x"
    and "in_failed (fst (process_pending_tasks w s)) x \<Longrightarrow> in_pending s x \<or> in_failed s x"
proof -
  let ?s' = "fst (process_pending_tasks w s)"
  have d: "distinct (pending s)" using ok by (rule store_ok_pending_distinct)
  have sub: "set (pending s) \<subseteq> set (pending s)" by simp
  have eq: "?s' = fst (pending_loop w (pending s) s)"
    by (cases "pending s = []") (simp_all add: process_pending_tasks_def)
  note inv = pending_loop_inv[OF ok d sub, of w, folded eq]
  show "store_ok ?s'" using inv by simp
  have p: "set (pending ?s') \<subseteq> set (pending s)" and c: "completed ?s' = completed s"
    and f1: "set (failed s) \<subseteq> set (failed ?s')"
    and f2: "source ` set (failed ?s') \<subseteq> source ` set (failed s) \<union> source ` set (pending s)"
    and dl: "(source \<circ> snd) ` set (downloading ?s')
          \<subseteq> (source \<circ> snd) ` set (downloading s) \<union> source ` set (pending s)"
    using inv by simp_all
  show "in_pending s x" if "in_pending ?s' x"
    using that image_mono[OF p, of source] unfolding in_pending_def by blast
  show "in_pending s x \<or> in_downloading s x" if "in_downloading ?s' x"
    using that dl unfolding in_pending_def in_downloading_def by blast
  show "in_completed ?s' x \<longleftrightarrow> in_completed s x"
    unfolding in_completed_def c ..
  show "in_failed ?s' x" if "in_failed s x"
    using that image_mono[OF f1, of source] unfolding in_failed_def by blast
  show "in_pending s x \<or> in_failed s x" if "in_failed ?s' x"
    using that f2 unfolding in_pending_def in_failed_def by blast
qed

lemma check_downloads_forward:
  assumes ok: "store_ok s"
  shows "in_pending (check_downloads w s) x \<longleftrightarrow> in_pending s x"
    and "in_failed (check_downloads w s) x \<longleftrightarrow> in_failed s x"
    and "in_downloading (check_downloads w s) x \<Longrightarrow> in_downloading s x"
    and "in_completed s x \<Longrightarrow> in_completed (check_downloads w s) x"
    and "in_completed (check_downloads w s) x \<Longrightarrow> in_downloading s x \<or> in_completed s x"
proof -
  note facts = check_downloads_store_ok[OF ok, of w]
  show "in_pending (check_downloads w s) x \<longleftrightarrow> in_pending s x"
    unfolding in_pending_def facts(4) ..
  show "in_failed (check_downloads w s) x \<longleftrightarrow> in_failed s x"
    unfolding in_failed_def facts(5) ..
  show "in_downloading s x" if "in_downloading (check_downloads w s) x"
    using that facts(2) unfolding in_downloading_def by blast
  show "in_completed (check_downloads w s) x" if "in_completed s x"
    using that image_mono[OF facts(6), of source] unfolding in_completed_def by blast
  show "in_downloading s x \<or> in_completed s x" if "in_completed (check_downloads w s) x"
    using that facts(3) unfolding in_downloading_def in_completed_def by blast
qed

text \<open>
  What one operation does to a store in which no source is kept twice: that property is
  preserved, and a source that is still stored afterwards has not moved backwards. The
  statement is about the sources found in the buckets before and after; it does not say
  that a source stored before is still stored after.
\<close>

lemma run_operation_forward:
  assumes "store_ok s"
  shows "store_ok (run_operation w op s)
       \<and> (\<forall>x. length (filter (\<lambda>y. y = Some x) (all_sources (run_operation w op s))) \<le> 1)
       \<and> (\<forall>x. in_downloading s x \<or> in_completed s x \<or> in_failed s x
               \<longrightarrow> \<not> in_pending (run_operation w op s) x)
       \<and> (\<forall>x. in_completed s x \<or> in_failed s x \<longrightarrow> \<not> in_downloading (run_operation w op s) x)
       \<and> (\<forall>x. in_completed s x \<longrightarrow> in_completed (run_operation w op s) x)
       \<and> (\<forall>x. in_failed s x \<longrightarrow> in_failed (run_operation w op s) x)
       \<and> (\<forall>x. in_downloading (run_operation w op s) x \<longrightarrow> in_pending s x \<or> in_downloading s x)
       \<and> (\<forall>x. in_completed (run_operation w op s) x \<longrightarrow> in_downloading s x \<or> in_completed s x)
       \<and> (\<forall>x. in_failed (run_operation w op s) x \<longrightarrow> in_pending s x \<or> in_failed s x)"
proof -
  let ?s' = "run_operation w op s"
  have ok': "store_ok ?s'"
  proof (cases op)
    case (AddTask src)
    then show ?thesis using add_task_forward(1)[OF assms] by simp
  next
    case ProcessPendingTasks
    then show ?thesis using process_pending_tasks_forward(1)[OF assms] by simp
  next
    case CheckDownloads
    then show ?thesis using check_downloads_store_ok(1)[OF assms] by simp
  qed
  have one: "\<forall>x. length (filter (\<lambda>y. y = Some x) (all_sources ?s')) \<le> 1"
    using ok'[unfolded store_ok_def, THEN conjunct1] by (intro allI distinct_filter_le_1)
  have fwd: "(\<forall>x. in_downloading s x \<or> in_completed s x \<or> in_failed s x \<longrightarrow> \<not> in_pending ?s' x)
       \<and> (\<forall>x. in_completed s x \<or> in_failed s x \<longrightarrow> \<not> in_downloading ?s' x)
       \<and> (\<forall>x. in_completed s x \<longrightarrow> in_completed ?s' x)
       \<and> (\<forall>x. in_failed s x \<longrightarrow> in_failed ?s' x)
       \<and> (\<forall>x. in_downloading ?s' x \<longrightarrow> in_pending s x \<or> in_downloading s x)
       \<and> (\<forall>x. in_completed ?s' x \<longrightarrow> in_downloading s x \<or> in_completed s x)
       \<and> (\<forall>x. in_failed ?s' x \<longrightarrow> in_pending s x \<or> in_failed s x)"
  proof (cases op)
    case (AddTask src)
    then have s': "?s' = fst (add_task w src s)" by simp
    note a = add_task_forward[OF assms, where w = w and src = src, folded s']
    show ?thesis
    proof (rule forward_only[OF assms])
      fix x
      show "in_pending s x \<or> \<not> (in_downloading s x \<or> in_completed s x \<or> in_failed s x)"
        if "in_pending ?s' x" using that by (rule a(5))
      show "in_pending s x \<or> in_downloading s x" if "in_downloading ?s' x"
        using that unfolding in_downloading_def a(2) by simp
      show "in_completed ?s' x" if "in_completed s x"
        using that unfolding in_completed_def a(3) .
      show "in_downloading s x \<or> in_completed s x" if "in_completed ?s' x"
        using that unfolding in_completed_def a(3) by simp
      show "in_failed ?s' x" if "in_failed s x"
        using that unfolding in_failed_def a(4) .
      show "in_pending s x \<or> in_failed s x" if "in_failed ?s' x"
        using that unfolding in_failed_def a(4) by simp
    qed
  next
    case ProcessPendingTasks
    then have s': "?s' = fst (process_pending_tasks w s)" by simp
    note a = process_pending_tasks_forward[OF assms, where w = w, folded s']
    show ?thesis
    proof (rule forward_only[OF assms])
      fix x
      show "in_pending s x \<or> \<not> (in_downloading s x \<or> in_completed s x \<or> in_failed s x)"
        if "in_pending ?s' x" using a(2)[OF that] by simp
      show "in_pending s x \<or> in_downloading s x" if "in_downloading ?s' x"
        using that by (rule a(3))
      show "in_completed ?s' x" if "in_completed s x"
        using that a(4) by simp
      show "in_downloading s x \<or> in_completed s x" if "in_completed ?s' x"
        using that a(4) by simp
      show "in_failed ?s' x" if "in_failed s x"
        using that by (rule a(5))
      show "in_pending s x \<or> in_failed s x" if "in_failed ?s' x"
        using that by (rule a(6))
    qed
  next
    case CheckDownloads
    then have s': "?s' = check_downloads w s" by simp
    note a = check_downloads_forward[OF assms, where w = w, folded s']
    show ?thesis
    proof (rule forward_only[OF assms])
      fix x
      show "in_pending s x \<or> \<not> (in_downloading s x \<or> in_completed s x \<or> in_failed s x)"
        if "in_pending ?s' x" using that a(1) by simp
      show "in_pending s x \<or> in_downloading s x" if "in_downloading ?s' x"
        using a(3)[OF that] by simp
      show "in_completed ?s' x" if "in_completed s x"
        using that by (rule a(4))
      show "in_downloading s x \<or> in_completed s x" if "in_completed ?s' x"
        using that by (rule a(5))
      show "in_failed ?s' x" if "in_failed s x"
        using that a(2) by simp
      show "in_pending s x \<or> in_failed s x" if "in_failed ?s' x"
        using that a(2) by simp
    qed
  qed
  from ok' one fwd show ?thesis by (intro conjI) blast+
qed

text \<open>
  C2. The code breaks the invariant for two sources for which the download client returns
  the same info hash: line 125 of main.py stores the second task under the key of the
  first, whose entry is overwritten. After the second \<open>process_pending_tasks\<close> the first
  source, which was in \<open>downloading\<close>, is in no bucket at all, and \<open>add_task\<close> then
  accepts it again: a task that had reached \<open>downloading\<close> is back in \<open>pending\<close>.
\<close>

theorem lifecycle_overwrite_loses_task:
  "in_downloading
     (run_operations duplicate_world
        [AddTask ''magnet:?xt=urn:btih:c0ffee'', ProcessPendingTasks] empty_service)
     ''magnet:?xt=urn:btih:c0ffee''
   \<and> \<not> in_pending
     (run_operations duplicate_world
        [AddTask ''magnet:?xt=urn:btih:c0ffee'', ProcessPendingTasks,
         AddTask ''c0ffee.torrent'', ProcessPendingTasks] empty_service)
     ''magnet:?xt=urn:btih:c0ffee''
   \<and> \<not> in_downloading
     (run_operations duplicate_world
        [AddTask ''magnet:?xt=urn:btih:c0ffee'', ProcessPendingTasks,
         AddTask ''c0ffee.torrent'', ProcessPendingTasks] empty_service)
     ''magnet:?xt=urn:btih:c0ffee''
   \<and> \<not> in_completed
     (run_operations duplicate_world
        [AddTask ''magnet:?xt=urn:btih:c0ffee'', ProcessPendingTasks,
         AddTask ''c0ffee.torrent'', ProcessPendingTasks] empty_service)
     ''magnet:?xt=urn:btih:c0ffee''
   \<and> \<not> in_failed
     (run_operations duplicate_world
        [AddTask ''magnet:?xt=urn:btih:c0ffee'', ProcessPendingTasks,
         AddTask ''c0ffee.torrent'', ProcessPendingTasks] empty_service)
     ''magnet:?xt=urn:btih:c0ffee''
   \<and> in_pending
     (run_operations duplicate_world
        [AddTask ''magnet:?xt=urn:btih:c0ffee'', ProcessPendingTasks,
         AddTask ''c0ffee.torrent'', ProcessPendingTasks,
         AddTask ''magnet:?xt=urn:btih:c0ffee''] empty_service)
     ''magnet:?xt=urn:btih:c0ffee''"
proof -
  let ?m = "''magnet:?xt=urn:btih:c0ffee''"
  let ?f = "''c0ffee.torrent''"
  let ?w = duplicate_world
  define s1 where "s1 = fst (add_task ?w ?m empty_service)"
  define s2 where "s2 = fst (process_pending_tasks ?w s1)"
  define s3 where "s3 = fst (add_task ?w ?f s2)"
  define s4 where "s4 = fst (process_pending_tasks ?w s3)"
  define s5 where "s5 = fst (add_task ?w ?m s4)"
  have w: "add_torrent ?w = (\<lambda>src. Inr ''c0ffee'')" "clock ?w = (\<lambda>n. 1000 + of_nat n)"
    by (simp_all add: duplicate_world_def example_world_def)
  have b1: "pending s1 = [new_task ?m 1000]" "downloading s1 = []" "completed s1 = []"
    "failed s1 = []" "ticks s1 = 1"
    by (simp_all add: s1_def add_task_def task_exists_def empty_service_def save_tasks_def w)
  have b2: "pending s2 = []"
    "downloading s2 = [(''c0ffee'', \<lparr>source = Some ?m, added_time = Some 1000,
        start_time = Some 1001, status = None, upload_result = None, complete_time = None,
        error = None\<rparr>)]"
    "completed s2 = []" "failed s2 = []" "ticks s2 = 3"
    by (simp_all add: s2_def process_pending_tasks_def dispatch_task_def b1 save_tasks_def
        new_task_def w Let_def)
  have b3: "pending s3 = [new_task ?f 1003]" "downloading s3 = downloading s2"
    "completed s3 = []" "failed s3 = []" "ticks s3 = 4"
    by (simp_all add: s3_def add_task_def task_exists_def b2 save_tasks_def w)
  have b4: "pending s4 = []"
    "downloading s4 = [(''c0ffee'', \<lparr>source = Some ?f, added_time = Some 1003,
        start_time = Some 1004, status = None, upload_result = None, complete_time = None,
        error = None\<rparr>)]"
    "completed s4 = []" "failed s4 = []" "ticks s4 = 6"
    by (simp_all add: s4_def process_pending_tasks_def dispatch_task_def b2 b3 save_tasks_def
        new_task_def w Let_def)
  have b5: "pending s5 = [new_task ?m 1006]"
    by (simp add: s5_def add_task_def task_exists_def b4 save_tasks_def w)
  have r2: "run_operations ?w [AddTask ?m, ProcessPendingTasks] empty_service = s2"
    and r4: "run_operations ?w [AddTask ?m, ProcessPendingTasks, AddTask ?f, ProcessPendingTasks]
               empty_service = s4"
    and r5: "run_operations ?w [AddTask ?m, ProcessPendingTasks, AddTask ?f, ProcessPendingTasks,
               AddTask ?m] empty_service = s5"
    by (simp_all add: run_operations_def s1_def s2_def s3_def s4_def s5_def)
  show ?thesis
    unfolding r2 r4 r5
    by (simp add: in_pending_def in_downloading_def in_completed_def in_failed_def
        b2 b4 b5 new_task_def)
qed

end
